theory Spec2Isabelle
  imports Main
begin

section \<open>The Agent contract (contracts/Agent.sol)\<close>

text \<open>
  Addresses and \<open>uint256\<close> values are natural numbers. Solidity 0.8 checks arithmetic:
  an addition that leaves the \<open>uint256\<close> range reverts, so the model tests the bound
  and returns the error. A revert leaves the storage as it was; it is the \<open>Inl\<close> branch
  of the result. Events are log output only and are not part of the storage, so they are
  not modelled. Two strings are compared in the source through their \<open>keccak256\<close>
  hashes; the model compares the strings themselves.
\<close>

type_synonym address = nat

definition MAX_UINT256 :: nat where
  "MAX_UINT256 = 2 ^ 256 - 1"

datatype revert =
    OnlyOwner            \<comment> \<open>"Only owner can call this function"\<close>
  | OnlyOwnerOrFactory   \<comment> \<open>"Only owner or factory can call this function"\<close>
  | ZeroOwner            \<comment> \<open>"New owner cannot be zero address"\<close>
  | OffsetOutOfBounds    \<comment> \<open>"Offset out of bounds"\<close>
  | ArithmeticOverflow   \<comment> \<open>Panic(0x11)\<close>
  | IndexOutOfBounds     \<comment> \<open>Panic(0x32)\<close>

record Memory =
  key :: string
  mvalue :: string
  timestamp :: nat

record Agent =
  owner :: address
  factory :: address
  goal :: string
  lastResponse :: string
  lastExecutionTime :: nat
  executionCount :: nat
  isActive :: bool
  memories :: "Memory list"
  memoryIndex :: "string \<Rightarrow> nat"

text \<open>The constructor; \<open>msg_sender\<close> is the deploying account, \<open>block_timestamp\<close> the time of the block.\<close>

definition Agent_constructor :: "address \<Rightarrow> nat \<Rightarrow> address \<Rightarrow> string \<Rightarrow> Agent" where
  "Agent_constructor msg_sender block_timestamp owner0 goal0 =
     \<lparr> owner = owner0,
       factory = msg_sender,
       goal = goal0,
       lastResponse = [],
       lastExecutionTime = block_timestamp,
       executionCount = 0,
       isActive = True,
       memories = [],
       memoryIndex = (\<lambda>_. 0) \<rparr>"

definition updateGoal :: "address \<Rightarrow> nat \<Rightarrow> string \<Rightarrow> Agent \<Rightarrow> revert + Agent" where
  "updateGoal msg_sender block_timestamp newGoal s =
     (if msg_sender \<noteq> owner s then Inl OnlyOwner
      else Inr (s\<lparr>goal := newGoal\<rparr>))"

definition storeResponse :: "address \<Rightarrow> nat \<Rightarrow> string \<Rightarrow> Agent \<Rightarrow> revert + Agent" where
  "storeResponse msg_sender block_timestamp response s =
     (if \<not> (msg_sender = owner s \<or> msg_sender = factory s) then Inl OnlyOwnerOrFactory
      else if executionCount s + 1 > MAX_UINT256 then Inl ArithmeticOverflow
      else Inr (s\<lparr>lastResponse := response,
                  lastExecutionTime := block_timestamp,
                  executionCount := executionCount s + 1\<rparr>))"

text \<open>
  The loop of \<open>storeMemory\<close> (lines 90 to 97): it overwrites the first entry whose key
  matches and stops there. It returns the array and the flag \<open>exists\<close>.
\<close>

function storeMemory_loop ::
  "string \<Rightarrow> string \<Rightarrow> nat \<Rightarrow> Memory list \<Rightarrow> nat \<Rightarrow> Memory list \<times> bool" where
  "storeMemory_loop k v ts ms i =
     (if i < length ms then
        (if key (ms ! i) = k
         then (ms[i := (ms ! i)\<lparr>mvalue := v, timestamp := ts\<rparr>], True)
         else storeMemory_loop k v ts ms (i + 1))
      else (ms, False))"
  by pat_completeness auto
termination
  by (relation "measure (\<lambda>(k, v, ts, ms, i). length ms - i)") auto

declare storeMemory_loop.simps [simp del]

definition storeMemory :: "address \<Rightarrow> nat \<Rightarrow> string \<Rightarrow> string \<Rightarrow> Agent \<Rightarrow> revert + Agent" where
  "storeMemory msg_sender block_timestamp k v s =
     (if \<not> (msg_sender = owner s \<or> msg_sender = factory s) then Inl OnlyOwnerOrFactory
      else
        let index = memoryIndex s k in
        if index = 0 \<and> length (memories s) > 0 then
          (case storeMemory_loop k v block_timestamp (memories s) 0 of
             (ms, exists) \<Rightarrow>
               if \<not> exists then
                 Inr (s\<lparr>memories := ms @ [\<lparr>key = k, mvalue = v, timestamp = block_timestamp\<rparr>],
                        memoryIndex := (memoryIndex s)(k := length ms + 1)\<rparr>)
               else Inr (s\<lparr>memories := ms\<rparr>))
        else if index > 0 then
          (if index - 1 < length (memories s) then
             Inr (s\<lparr>memories := (memories s)[index - 1 :=
                      (memories s ! (index - 1))\<lparr>mvalue := v, timestamp := block_timestamp\<rparr>]\<rparr>)
           else Inl IndexOutOfBounds)
        else
          Inr (s\<lparr>memories := memories s @ [\<lparr>key = k, mvalue = v, timestamp = block_timestamp\<rparr>],
                 memoryIndex := (memoryIndex s)(k := length (memories s) + 1)\<rparr>))"

text \<open>The loop of \<open>getMemory\<close> (lines 123 to 128), from index \<open>i\<close>.\<close>

function getMemory_loop :: "string \<Rightarrow> Memory list \<Rightarrow> nat \<Rightarrow> string \<times> nat" where
  "getMemory_loop k ms i =
     (if i < length ms then
        (if key (ms ! i) = k then (mvalue (ms ! i), timestamp (ms ! i))
         else getMemory_loop k ms (i + 1))
      else ([], 0))"
  by pat_completeness auto
termination
  by (relation "measure (\<lambda>(k, ms, i). length ms - i)") auto

declare getMemory_loop.simps [simp del]

definition getMemory :: "string \<Rightarrow> Agent \<Rightarrow> string \<times> nat" where
  "getMemory k s = getMemory_loop k (memories s) 0"

definition getAllMemories :: "Agent \<Rightarrow> Memory list" where
  "getAllMemories s = memories s"

text \<open>\<open>getAgentInfo\<close> returns the seven values in the order of the source.\<close>

definition getAgentInfo ::
  "Agent \<Rightarrow> address \<times> string \<times> string \<times> nat \<times> nat \<times> bool \<times> nat" where
  "getAgentInfo s =
     (owner s, goal s, lastResponse s, lastExecutionTime s, executionCount s, isActive s,
      length (memories s))"

definition setActive :: "address \<Rightarrow> nat \<Rightarrow> bool \<Rightarrow> Agent \<Rightarrow> revert + Agent" where
  "setActive msg_sender block_timestamp active s =
     (if msg_sender \<noteq> owner s then Inl OnlyOwner
      else Inr (s\<lparr>isActive := active\<rparr>))"

definition transferOwnership :: "address \<Rightarrow> nat \<Rightarrow> address \<Rightarrow> Agent \<Rightarrow> revert + Agent" where
  "transferOwnership msg_sender block_timestamp newOwner s =
     (if msg_sender \<noteq> owner s then Inl OnlyOwner
      else if newOwner = 0 then Inl ZeroOwner
      else Inr (s\<lparr>owner := newOwner\<rparr>))"

subsection \<open>Transactions on one agent\<close>

text \<open>
  A transaction names its sender, the timestamp of its block and the external function it
  calls. A transaction that reverts leaves the agent as it was. In a chain the block
  timestamps never decrease: \<open>chain_ok t0 txs\<close> says so for the creation time \<open>t0\<close>
  followed by the transactions in their order.
\<close>

datatype call =
    UpdateGoal string
  | StoreResponse string
  | StoreMemory string string
  | SetActive bool
  | TransferOwnership address

record tx =
  tx_sender :: address
  tx_time :: nat
  tx_call :: call

definition exec :: "tx \<Rightarrow> Agent \<Rightarrow> revert + Agent" where
  "exec t s =
     (case tx_call t of
        UpdateGoal g \<Rightarrow> updateGoal (tx_sender t) (tx_time t) g s
      | StoreResponse r \<Rightarrow> storeResponse (tx_sender t) (tx_time t) r s
      | StoreMemory k v \<Rightarrow> storeMemory (tx_sender t) (tx_time t) k v s
      | SetActive b \<Rightarrow> setActive (tx_sender t) (tx_time t) b s
      | TransferOwnership a \<Rightarrow> transferOwnership (tx_sender t) (tx_time t) a s)"

definition apply_tx :: "Agent \<Rightarrow> tx \<Rightarrow> Agent" where
  "apply_tx s t = (case exec t s of Inl e \<Rightarrow> s | Inr s' \<Rightarrow> s')"

definition run :: "Agent \<Rightarrow> tx list \<Rightarrow> Agent" where
  "run s txs = foldl apply_tx s txs"

definition chain_ok :: "nat \<Rightarrow> tx list \<Rightarrow> bool" where
  "chain_ok t0 txs = sorted (t0 # map tx_time txs)"

section \<open>The registry (contracts/AgentFactory.sol)\<close>

record AgentFactory =
  agents :: "address list"
  userAgents :: "address \<Rightarrow> address list"
  isAgent :: "address \<Rightarrow> bool"

definition getUserAgents :: "AgentFactory \<Rightarrow> address \<Rightarrow> address list" where
  "getUserAgents f user = userAgents f user"

definition getAgentCount :: "AgentFactory \<Rightarrow> nat" where
  "getAgentCount f = length (agents f)"

text \<open>
  The copy loop of \<open>getAgents\<close> (lines 78 to 80): \<open>result[i - offset] = agents[i]\<close>
  for \<open>i\<close> from its current value up to \<open>end\<close>.
\<close>

function getAgents_loop :: "address list \<Rightarrow> nat \<Rightarrow> nat \<Rightarrow> nat \<Rightarrow> address list \<Rightarrow> address list" where
  "getAgents_loop ags offset endIdx i result =
     (if i < endIdx then getAgents_loop ags offset endIdx (i + 1) (result[i - offset := ags ! i])
      else result)"
  by pat_completeness auto
termination
  by (relation "measure (\<lambda>(ags, offset, endIdx, i, result). endIdx - i)") auto

declare getAgents_loop.simps [simp del]

text \<open>
  \<open>getAgents\<close>: the \<open>require\<close> comes first, whatever the length of the registry; the
  sum \<open>offset + limit\<close> is a checked \<open>uint256\<close> addition.
\<close>

definition getAgents :: "AgentFactory \<Rightarrow> nat \<Rightarrow> nat \<Rightarrow> revert + address list" where
  "getAgents f offset limit =
     (if \<not> offset < length (agents f) then Inl OffsetOutOfBounds
      else if offset + limit > MAX_UINT256 then Inl ArithmeticOverflow
      else
        let endIdx = (if offset + limit > length (agents f) then length (agents f)
                      else offset + limit)
        in Inr (getAgents_loop (agents f) offset endIdx offset (replicate (endIdx - offset) 0)))"

definition isValidAgent :: "AgentFactory \<Rightarrow> address \<Rightarrow> bool" where
  "isValidAgent f a = isAgent f a"

section \<open>The ledger as the off-chain code sees it\<close>

text \<open>
  The ledger maps an address to the agent deployed there. A call from the off-chain code
  can fail for two reasons: the contract reverts, or the call does not get through (the
  node is unreachable, the transaction is dropped). The second is a choice of the
  environment, given to each function as a flag.
\<close>

type_synonym ledger = "address \<Rightarrow> Agent option"

definition send_storeResponse ::
  "bool \<Rightarrow> address \<Rightarrow> nat \<Rightarrow> address \<Rightarrow> string \<Rightarrow> ledger \<Rightarrow> ledger option" where
  "send_storeResponse ok wallet block_timestamp a response L =
     (if \<not> ok then None
      else case L a of
             None \<Rightarrow> None
           | Some ag \<Rightarrow>
               (case storeResponse wallet block_timestamp response ag of
                  Inl e \<Rightarrow> None
                | Inr ag' \<Rightarrow> Some (L(a \<mapsto> ag'))))"

definition send_storeMemory ::
  "bool \<Rightarrow> address \<Rightarrow> nat \<Rightarrow> address \<Rightarrow> string \<Rightarrow> string \<Rightarrow> ledger \<Rightarrow> ledger option" where
  "send_storeMemory ok wallet block_timestamp a k v L =
     (if \<not> ok then None
      else case L a of
             None \<Rightarrow> None
           | Some ag \<Rightarrow>
               (case storeMemory wallet block_timestamp k v ag of
                  Inl e \<Rightarrow> None
                | Inr ag' \<Rightarrow> Some (L(a \<mapsto> ag'))))"

section \<open>The executor (executor/index.js)\<close>

text \<open>
  What the environment decides while one agent is processed, in the order of the awaited
  calls of \<open>executeAgent\<close>: whether the read of \<open>getAgentInfo\<close> gets through, the clock
  (\<open>Math.floor(Date.now() / 1000)\<close>), whether the read of \<open>getAllMemories\<close> gets through,
  what the completion service answers to a prompt (\<open>None\<close> when the call throws), whether
  the two transactions get through and the timestamps of their blocks, and the text of
  \<open>new Date().toISOString()\<close>.
\<close>

record agent_env =
  infoReadOk :: bool
  currentTime :: int
  memoriesReadOk :: bool
  completion :: "string \<Rightarrow> string option"
  commitOk :: bool
  commitBlockTime :: nat
  isoTime :: string
  memoryOk :: bool
  memoryBlockTime :: nat

datatype stage = ReadInfo | ReadMemories | Generation | Commit | MemorySubmit

text \<open>
  How \<open>executeAgent\<close> ends: one of its two early returns, the end of the \<open>try\<close> block,
  or the \<open>catch\<close> block, with the statement that threw.
\<close>

datatype outcome = SkippedInactive | SkippedWaiting | Completed | Errored stage

definition minInterval :: int where
  "minInterval = 3600"

text \<open>A count printed by a template literal: its decimal digits.\<close>

definition digit :: "nat \<Rightarrow> char" where
  "digit d = ''0123456789'' ! d"

function decimal :: "nat \<Rightarrow> string" where
  "decimal n = (if 10 \<le> n then decimal (n div 10) else []) @ [digit (n mod 10)]"
  by pat_completeness auto
termination
  by (relation "measure (\<lambda>n. n)") auto

declare decimal.simps [simp del]

text \<open>\<open>xs.slice(-n)\<close> of JavaScript, for \<open>n > 0\<close>: the last \<open>n\<close> elements, or all of them.\<close>

definition slice_last :: "nat \<Rightarrow> 'a list \<Rightarrow> 'a list" where
  "slice_last n xs = drop (length xs - n) xs"

definition newline :: char where
  "newline = CHR 0x0A"

definition memoryContext :: "Memory list \<Rightarrow> string" where
  "memoryContext ms =
     (if length ms > 0 then
        [newline, newline] @ ''Previous memories:'' @ [newline] @
        concat (map (\<lambda>m. key m @ '': '' @ mvalue m @ [newline]) (slice_last 5 ms))
      else [])"

definition make_prompt :: "string \<Rightarrow> string \<Rightarrow> nat \<Rightarrow> Memory list \<Rightarrow> string" where
  "make_prompt goal' lastResponse' execCount ms =
     ''You are an autonomous AI agent deployed on the blockchain. Your goal is: '' @
     [CHR 0x22] @ goal' @ [CHR 0x22, newline] @
     ''      '' @ [newline] @
     ''Previous response: '' @ (if lastResponse' = [] then ''None'' else lastResponse') @ [newline] @
     ''Execution count: '' @ decimal execCount @ [newline] @
     memoryContext ms @ [newline, newline] @
     ''Please provide a response that helps achieve your goal. Be concise and actionable. If this is a recurring task, provide an update or summary.''"

text \<open>
  \<open>executeAgent\<close> returns how it ended, the calls it made to the completion service (the
  agent and the prompt) and the ledger it leaves. The wallet is the account that signs the
  executor's transactions. Every awaited call can throw, and the \<open>catch\<close> block of the
  function takes every exception; console output is not modelled. Strings are lists of
  characters, so \<open>substring(0, 200)\<close> is \<open>take 200\<close>, and \<open>Number\<close> of a timestamp or a
  count is the number itself (it is exact below \<open>2^53\<close>).
\<close>

definition executeAgent ::
  "address \<Rightarrow> agent_env \<Rightarrow> address \<Rightarrow> ledger \<Rightarrow> outcome \<times> (address \<times> string) list \<times> ledger" where
  "executeAgent wallet e agentAddress L =
     (case (if infoReadOk e then L agentAddress else None) of
        None \<Rightarrow> (Errored ReadInfo, [], L)
      | Some ag \<Rightarrow>
          (case getAgentInfo ag of
             (owner', goal', lastResponse', lastExecution, execCount, isActive', memoryCount) \<Rightarrow>
               if \<not> isActive' then (SkippedInactive, [], L)
               else
                 let timeSinceLastExecution = currentTime e - int lastExecution in
                 if timeSinceLastExecution < minInterval \<and> execCount > 0
                 then (SkippedWaiting, [], L)
                 else if \<not> memoriesReadOk e then (Errored ReadMemories, [], L)
                 else
                   let prompt = make_prompt goal' lastResponse' execCount (getAllMemories ag) in
                   (case completion e prompt of
                      None \<Rightarrow> (Errored Generation, [(agentAddress, prompt)], L)
                    | Some response \<Rightarrow>
                        (case send_storeResponse (commitOk e) wallet (commitBlockTime e)
                                agentAddress response L of
                           None \<Rightarrow> (Errored Commit, [(agentAddress, prompt)], L)
                         | Some L1 \<Rightarrow>
                             (case send_storeMemory (memoryOk e) wallet (memoryBlockTime e)
                                     agentAddress
                                     (''execution_'' @ decimal execCount)
                                     (isoTime e @ '': '' @ take 200 response) L1 of
                                None \<Rightarrow> (Errored MemorySubmit, [(agentAddress, prompt)], L1)
                              | Some L2 \<Rightarrow> (Completed, [(agentAddress, prompt)], L2))))))"

text \<open>
  The loop of \<open>executeAgents\<close> (lines 126 to 128) over the page of addresses it has
  fetched: one \<open>executeAgent\<close> after the other. It returns the outcome of every agent in
  the order of the page, all the calls to the completion service, and the final ledger.
\<close>

fun executeAgents_loop ::
  "address \<Rightarrow> (address \<Rightarrow> agent_env) \<Rightarrow> address list \<Rightarrow> ledger \<Rightarrow>
     (address \<times> outcome) list \<times> (address \<times> string) list \<times> ledger" where
  "executeAgents_loop wallet env [] L = ([], [], L)"
| "executeAgents_loop wallet env (a # as) L =
     (case executeAgent wallet (env a) a L of
        (out, calls, L1) \<Rightarrow>
          (case executeAgents_loop wallet env as L1 of
             (outs, calls', L2) \<Rightarrow> ((a, out) # outs, calls @ calls', L2)))"

declare executeAgents_loop.simps [simp del]

text \<open>
  The values that \<open>executeAgents\<close> computes with before the loop. With ethers 6 a
  \<open>uint256\<close> returned by a contract is a BigInt, and the literals \<open>0\<close> and \<open>100\<close> are
  Numbers. \<open>==\<close> between a BigInt and a Number compares the two numbers. \<open>Math.min\<close>
  converts each argument with \<open>ToNumber\<close>, which throws a TypeError on a BigInt.
\<close>

datatype js_value = JSNumber int | JSBigInt int

datatype js_error = TypeError

definition loose_equal :: "js_value \<Rightarrow> js_value \<Rightarrow> bool" where
  "loose_equal x y =
     ((case x of JSNumber n \<Rightarrow> n | JSBigInt n \<Rightarrow> n) =
      (case y of JSNumber n \<Rightarrow> n | JSBigInt n \<Rightarrow> n))"

definition ToNumber :: "js_value \<Rightarrow> js_error + int" where
  "ToNumber v = (case v of JSNumber n \<Rightarrow> Inr n | JSBigInt n \<Rightarrow> Inl TypeError)"

definition Math_min :: "js_value \<Rightarrow> js_value \<Rightarrow> js_error + int" where
  "Math_min x y =
     (case ToNumber x of
        Inl err \<Rightarrow> Inl err
      | Inr m \<Rightarrow> (case ToNumber y of Inl err \<Rightarrow> Inl err | Inr n \<Rightarrow> Inr (min m n)))"

text \<open>
  What the environment decides during one tick: whether the read of \<open>getAgentCount\<close>
  and the read of \<open>getAgents\<close> get through, and the environment of every agent.
\<close>

record tick_env =
  countReadOk :: bool
  pageReadOk :: bool
  agentEnv :: "address \<Rightarrow> agent_env"

text \<open>
  How a tick ends: the early return on an empty registry, the end of the \<open>try\<close> block
  after the loop, or the \<open>catch\<close> block of line 130.
\<close>

datatype tick_outcome = NoAgents | TickCompleted | TickErrored

text \<open>
  \<open>executeAgents\<close> (lines 111 to 133), one tick: how it ended, the outcome of every
  agent it processed, the calls to the completion service, and the ledger it leaves. A
  read that does not get through, a revert of \<open>getAgents\<close> and an exception of
  \<open>Math.min\<close> all end in the \<open>catch\<close> block.
\<close>

definition executeAgents ::
  "address \<Rightarrow> tick_env \<Rightarrow> AgentFactory \<Rightarrow> ledger \<Rightarrow>
     tick_outcome \<times> (address \<times> outcome) list \<times> (address \<times> string) list \<times> ledger" where
  "executeAgents wallet te f L =
     (if \<not> countReadOk te then (TickErrored, [], [], L)
      else
        let agentCount = JSBigInt (int (getAgentCount f)) in
        if loose_equal agentCount (JSNumber 0) then (NoAgents, [], [], L)
        else
          (case Math_min agentCount (JSNumber 100) of
             Inl err \<Rightarrow> (TickErrored, [], [], L)
           | Inr limit \<Rightarrow>
               (case (if pageReadOk te \<and> 0 \<le> limit then getAgents f 0 (nat limit)
                      else Inl OffsetOutOfBounds) of
                  Inl e \<Rightarrow> (TickErrored, [], [], L)
                | Inr page \<Rightarrow>
                    (case executeAgents_loop wallet (agentEnv te) page L of
                       (outs, calls, L') \<Rightarrow> (TickCompleted, outs, calls, L')))))"

text \<open>The three components of such a result.\<close>

definition outcome_of :: "'a \<times> 'b \<times> 'c \<Rightarrow> 'a" where
  "outcome_of r = fst r"

definition calls_of :: "'a \<times> 'b \<times> 'c \<Rightarrow> 'b" where
  "calls_of r = fst (snd r)"

definition ledger_of :: "'a \<times> 'b \<times> 'c \<Rightarrow> 'c" where
  "ledger_of r = snd (snd r)"

section \<open>The monitor (monitor/index.js, utils/AgentXUtils.js)\<close>

text \<open>The object that \<open>AgentXUtils.getAgentInfo\<close> builds; the numbers are converted with \<open>Number\<close>.\<close>

record AgentInfo =
  info_address :: address
  info_owner :: address
  info_goal :: string
  info_lastResponse :: string
  info_lastExecution :: int
  info_executionCount :: nat
  info_isActive :: bool
  info_memoryCount :: nat
  info_memories :: "Memory list"

definition utils_getAgentInfo :: "bool \<Rightarrow> ledger \<Rightarrow> address \<Rightarrow> AgentInfo option" where
  "utils_getAgentInfo ok L agentAddress =
     (case (if ok then L agentAddress else None) of
        None \<Rightarrow> None
      | Some ag \<Rightarrow>
          (case getAgentInfo ag of
             (owner', goal', lastResponse', lastExecution, execCount, isActive', memoryCount) \<Rightarrow>
               Some \<lparr> info_address = agentAddress,
                      info_owner = owner',
                      info_goal = goal',
                      info_lastResponse = lastResponse',
                      info_lastExecution = int lastExecution,
                      info_executionCount = execCount,
                      info_isActive = isActive',
                      info_memoryCount = memoryCount,
                      info_memories = getAllMemories ag \<rparr>))"

record page =
  page_agents :: "address list"
  totalCount :: nat
  hasMore :: bool

definition utils_getAllAgents :: "bool \<Rightarrow> AgentFactory \<Rightarrow> nat \<Rightarrow> nat \<Rightarrow> page option" where
  "utils_getAllAgents ok f offset limit =
     (if \<not> ok then None
      else
        let count = getAgentCount f in
        case getAgents f offset limit of
          Inl e \<Rightarrow> None
        | Inr ags \<Rightarrow>
            Some \<lparr> page_agents = ags,
                   totalCount = count,
                   hasMore = (offset + length ags < count) \<rparr>)"

record sample =
  sample_timestamp :: int
  totalAgents :: nat
  activeAgents :: nat
  totalExecutions :: nat
  recentExecutions :: nat

text \<open>
  The history file \<open>logs/monitoring-data.json\<close>: \<open>None\<close> when the file does not exist,
  else the array it holds. \<open>saveMonitoringData\<close> is the only writer of the file. The flag
  \<open>readOk\<close> is false when reading or parsing the file throws (the array then stays
  empty), \<open>writeOk\<close> is false when writing throws (the file then stays as it was).
\<close>

type_synonym history_file = "sample list option"

definition saveMonitoringData :: "bool \<Rightarrow> bool \<Rightarrow> sample \<Rightarrow> history_file \<Rightarrow> history_file" where
  "saveMonitoringData readOk writeOk data file =
     (let loaded = (case file of None \<Rightarrow> [] | Some content \<Rightarrow> if readOk then content else []);
          pushed = loaded @ [data];
          historicalData = (if length pushed > 1000 then slice_last 1000 pushed else pushed)
      in if writeOk then Some historicalData else file)"

text \<open>One body of the loop of \<open>scanAgents\<close> (lines 74 to 92) on the three counters.\<close>

definition scanAgents_step ::
  "(address \<Rightarrow> bool) \<Rightarrow> ledger \<Rightarrow> int \<Rightarrow> address \<Rightarrow> nat \<times> nat \<times> nat \<Rightarrow> nat \<times> nat \<times> nat" where
  "scanAgents_step readOk L recentThreshold agentAddress acc =
     (case acc of
        (act, tot, rec) \<Rightarrow>
          (case utils_getAgentInfo (readOk agentAddress) L agentAddress of
             None \<Rightarrow> (act, tot, rec)
           | Some agentInfo \<Rightarrow>
               ((if info_isActive agentInfo then act + 1 else act),
                tot + info_executionCount agentInfo,
                (if info_lastExecution agentInfo > recentThreshold then rec + 1 else rec))))"

fun scanAgents_loop ::
  "(address \<Rightarrow> bool) \<Rightarrow> ledger \<Rightarrow> int \<Rightarrow> address list \<Rightarrow> nat \<times> nat \<times> nat \<Rightarrow> nat \<times> nat \<times> nat" where
  "scanAgents_loop readOk L recentThreshold [] acc = acc"
| "scanAgents_loop readOk L recentThreshold (a # as) acc =
     scanAgents_loop readOk L recentThreshold as (scanAgents_step readOk L recentThreshold a acc)"

text \<open>
  What the environment decides during one scan: whether the listing gets through, which
  agents can be read, the clock, and whether the history file can be read and written.
\<close>

record scan_env =
  listOk :: bool
  agentReadOk :: "address \<Rightarrow> bool"
  scanTime :: int
  fileReadOk :: bool
  fileWriteOk :: bool

definition scanAgents :: "scan_env \<Rightarrow> AgentFactory \<Rightarrow> ledger \<Rightarrow> history_file \<Rightarrow> history_file" where
  "scanAgents e f L file =
     (case utils_getAllAgents (listOk e) f 0 1000 of
        None \<Rightarrow> file
      | Some result \<Rightarrow>
          let currentTime = scanTime e;
              recentThreshold = currentTime - 3600
          in (case scanAgents_loop (agentReadOk e) L recentThreshold (page_agents result) (0, 0, 0) of
                (act, tot, rec) \<Rightarrow>
                  saveMonitoringData (fileReadOk e) (fileWriteOk e)
                    \<lparr> sample_timestamp = currentTime,
                      totalAgents = totalCount result,
                      activeAgents = act,
                      totalExecutions = tot,
                      recentExecutions = rec \<rparr> file))"

text \<open>A sequence of appends, each with its two flags, in order.\<close>

fun save_all :: "(bool \<times> bool \<times> sample) list \<Rightarrow> history_file \<Rightarrow> history_file" where
  "save_all [] file = file"
| "save_all ((readOk, writeOk, data) # rest) file =
     save_all rest (saveMonitoringData readOk writeOk data file)"

section \<open>Example states\<close>

text \<open>An agent created by the factory 9 for the owner 1, after two memories were stored.\<close>

definition ex_agent :: Agent where
  "ex_agent = run (Agent_constructor 9 100 1 ''g'')
     [\<lparr>tx_sender = 1, tx_time = 101, tx_call = StoreMemory ''a'' ''x''\<rparr>,
      \<lparr>tx_sender = 9, tx_time = 102, tx_call = StoreMemory ''b'' ''y''\<rparr>]"

text \<open>An empty registry, and a registry of five agents created by the account 1.\<close>

definition ex_empty :: AgentFactory where
  "ex_empty = \<lparr>agents = [], userAgents = (\<lambda>_. []), isAgent = (\<lambda>_. False)\<rparr>"

definition ex_five :: AgentFactory where
  "ex_five = \<lparr>agents = [11, 12, 13, 14, 15], userAgents = (\<lambda>u. if u = 1 then [11, 12, 13, 14, 15] else []),
      isAgent = (\<lambda>a. a \<in> set [11, 12, 13, 14, 15])\<rparr>"

text \<open>
  A ledger of five agents owned by the account 1, which is also the wallet of the
  executor: new ones (11, 12, 15), an inactive one (13), and one that ran three times
  (14). The environment \<open>ex_env\<close> lets the generation fail for the agent 11 and the
  submit of the memory fail for the agent 15.
\<close>

definition ex_ledger :: ledger where
  "ex_ledger = Map.empty
     (11 \<mapsto> Agent_constructor 9 100 1 ''g'',
      12 \<mapsto> Agent_constructor 9 100 1 ''h'',
      13 \<mapsto> (Agent_constructor 9 100 1 ''i'')\<lparr>isActive := False\<rparr>,
      14 \<mapsto> (Agent_constructor 9 100 1 ''j'')\<lparr>lastExecutionTime := 1000, executionCount := 3\<rparr>,
      15 \<mapsto> Agent_constructor 9 100 1 ''k'')"

definition ex_env_ok :: agent_env where
  "ex_env_ok =
     \<lparr> infoReadOk = True, currentTime = 2800, memoriesReadOk = True,
       completion = (\<lambda>prompt. Some ''done''),
       commitOk = True, commitBlockTime = 2801,
       isoTime = ''2025-01-01T00:46:40.000Z'',
       memoryOk = True, memoryBlockTime = 2802 \<rparr>"

definition ex_env :: "address \<Rightarrow> agent_env" where
  "ex_env a =
     (if a = 11 then ex_env_ok\<lparr>completion := (\<lambda>prompt. None)\<rparr>
      else if a = 15 then ex_env_ok\<lparr>memoryOk := False\<rparr>
      else ex_env_ok)"

text \<open>A tick in which both reads of the registry get through.\<close>

definition ex_tick_env :: tick_env where
  "ex_tick_env = \<lparr> countReadOk = True, pageReadOk = True, agentEnv = ex_env \<rparr>"

text \<open>The sample number \<open>i\<close> of a monitor that samples every 30 seconds.\<close>

definition ex_sample :: "nat \<Rightarrow> sample" where
  "ex_sample i = \<lparr> sample_timestamp = 30 * int i, totalAgents = 4, activeAgents = 3,
                   totalExecutions = i, recentExecutions = 1 \<rparr>"

text \<open>A scan at the time 2000 in which nothing fails.\<close>

definition ex_scan_env :: scan_env where
  "ex_scan_env = \<lparr> listOk = True, agentReadOk = (\<lambda>a. True), scanTime = 2000,
                   fileReadOk = True, fileWriteOk = True \<rparr>"

section \<open>Invariants\<close>

text \<open>
  The index of \<open>storeMemory\<close>: \<open>memoryIndex\<close> holds, for every key of the array, its
  position plus one, and zero for every other key; no key occurs twice in the array.
\<close>

definition index_inv :: "string list \<Rightarrow> (string \<Rightarrow> nat) \<Rightarrow> bool" where
  "index_inv ks idx \<longleftrightarrow>
     distinct ks \<and>
     (\<forall>k. (k \<notin> set ks \<longrightarrow> idx k = 0) \<and>
          (k \<in> set ks \<longrightarrow> 0 < idx k \<and> idx k \<le> length ks \<and> ks ! (idx k - 1) = k))"

definition mem_inv :: "Agent \<Rightarrow> bool" where
  "mem_inv s \<longleftrightarrow> index_inv (map key (memories s)) (memoryIndex s)"

section \<open>The example states, evaluated\<close>

lemma ex_agent_memories:
  "memories ex_agent = [\<lparr>key = ''a'', mvalue = ''x'', timestamp = 101\<rparr>,
      \<lparr>key = ''b'', mvalue = ''y'', timestamp = 102\<rparr>]"
  by (simp add: ex_agent_def run_def apply_tx_def exec_def storeMemory_def
      storeMemory_loop.simps Agent_constructor_def)

lemma ex_agent_owner: "owner ex_agent = 1"
  by (simp add: ex_agent_def run_def apply_tx_def exec_def storeMemory_def
      storeMemory_loop.simps Agent_constructor_def)

lemma ex_agent_executionCount: "executionCount ex_agent = 0"
  by (simp add: ex_agent_def run_def apply_tx_def exec_def storeMemory_def
      storeMemory_loop.simps Agent_constructor_def)


lemma ex_outcome_12:
  "outcome_of (executeAgent 1 (ex_env 12) 12 ex_ledger) = Completed"
  by (simp add: executeAgent_def ex_env_def ex_env_ok_def
      ex_ledger_def getAgentInfo_def getAllMemories_def Agent_constructor_def
      send_storeResponse_def send_storeMemory_def storeResponse_def storeMemory_def
      MAX_UINT256_def minInterval_def outcome_of_def Let_def)


lemma ex_agent_13:
  "ex_ledger 13 = Some (run (Agent_constructor 9 100 1 ''i'')
     [\<lparr>tx_sender = 1, tx_time = 150, tx_call = SetActive False\<rparr>])"
  by (simp add: ex_ledger_def run_def apply_tx_def exec_def setActive_def Agent_constructor_def)

lemma ex_scan_others:
  "scanAgents_loop (agentReadOk ex_scan_env) ex_ledger (scanTime ex_scan_env - 3600)
     ([11, 12] @ [14, 15]) (0, 0, 0) = (4, 3, 4)"
  by (simp add: ex_scan_env_def ex_ledger_def scanAgents_step_def utils_getAgentInfo_def
      getAgentInfo_def getAllMemories_def Agent_constructor_def)

section \<open>Reading a memory\<close>

lemma getMemory_loop_none:
  "(\<forall>j. i \<le> j \<and> j < length ms \<longrightarrow> key (ms ! j) \<noteq> k) \<Longrightarrow> getMemory_loop k ms i = ([], 0)"
proof (induction k ms i rule: getMemory_loop.induct)
  case (1 k ms i)
  show ?case
  proof (cases "i < length ms")
    case True
    with "1.prems" have ne: "key (ms ! i) \<noteq> k" by simp
    have "getMemory_loop k ms (i + 1) = ([], 0)"
      using "1.IH" [OF True ne] "1.prems" by simp
    with True ne show ?thesis by (subst getMemory_loop.simps) simp
  next
    case False
    then show ?thesis by (subst getMemory_loop.simps) simp
  qed
qed

lemma getMemory_loop_first:
  "i \<le> n \<Longrightarrow> n < length ms \<Longrightarrow> key (ms ! n) = k \<Longrightarrow>
   (\<forall>j. i \<le> j \<and> j < n \<longrightarrow> key (ms ! j) \<noteq> k) \<Longrightarrow>
   getMemory_loop k ms i = (mvalue (ms ! n), timestamp (ms ! n))"
proof (induction k ms i rule: getMemory_loop.induct)
  case (1 k ms i)
  from "1.prems" have lt: "i < length ms" by simp
  show ?case
  proof (cases "i = n")
    case True
    with "1.prems" lt show ?thesis by (subst getMemory_loop.simps) simp
  next
    case False
    with "1.prems" have ne: "key (ms ! i) \<noteq> k" and le: "i + 1 \<le> n" by auto
    have "getMemory_loop k ms (i + 1) = (mvalue (ms ! n), timestamp (ms ! n))"
      using "1.IH" [OF lt ne le] "1.prems" by simp
    with lt ne show ?thesis by (subst getMemory_loop.simps) simp
  qed
qed

lemma first_index_ex:
  assumes "k \<in> key ` set ms"
  shows "\<exists>n. n < length ms \<and> key (ms ! n) = k \<and> (\<forall>j<n. key (ms ! j) \<noteq> k)"
proof -
  from assms obtain m where "m < length ms" "key (ms ! m) = k"
    by (auto simp: in_set_conv_nth)
  then have ex: "\<exists>n. n < length ms \<and> key (ms ! n) = k" by blast
  define n where "n = (LEAST n. n < length ms \<and> key (ms ! n) = k)"
  have "n < length ms \<and> key (ms ! n) = k"
    unfolding n_def using ex by (rule LeastI_ex)
  moreover have "\<forall>j<n. key (ms ! j) \<noteq> k"
  proof (intro allI impI notI)
    fix j assume "j < n" "key (ms ! j) = k"
    moreover from \<open>j < n\<close> \<open>n < length ms \<and> key (ms ! n) = k\<close> have "j < length ms" by simp
    ultimately have "n \<le> j" unfolding n_def by (intro Least_le) simp
    with \<open>j < n\<close> show False by simp
  qed
  ultimately show ?thesis by blast
qed

text \<open>
  C10. \<open>getMemory\<close> is a total function: for a key that no entry of \<open>memories\<close> has it
  returns the empty string and 0, and for a key that some entry has it returns the value
  and the timestamp of the first entry with that key.
\<close>

theorem getMemory_total:
  "(k \<notin> key ` set (memories s) \<longrightarrow> getMemory k s = ([], 0)) \<and>
   (k \<in> key ` set (memories s) \<longrightarrow>
      (\<exists>n. n < length (memories s) \<and> key (memories s ! n) = k \<and>
           (\<forall>j<n. key (memories s ! j) \<noteq> k) \<and>
           getMemory k s = (mvalue (memories s ! n), timestamp (memories s ! n))))"
proof (intro conjI impI)
  assume "k \<notin> key ` set (memories s)"
  then have "\<forall>j. 0 \<le> j \<and> j < length (memories s) \<longrightarrow> key (memories s ! j) \<noteq> k"
    by (metis imageI nth_mem)
  then show "getMemory k s = ([], 0)"
    unfolding getMemory_def by (rule getMemory_loop_none)
next
  assume "k \<in> key ` set (memories s)"
  then obtain n where n: "n < length (memories s)" "key (memories s ! n) = k"
      "\<forall>j<n. key (memories s ! j) \<noteq> k"
    using first_index_ex by blast
  then have "getMemory k s = (mvalue (memories s ! n), timestamp (memories s ! n))"
    unfolding getMemory_def by (intro getMemory_loop_first) auto
  with n show "\<exists>n. n < length (memories s) \<and> key (memories s ! n) = k \<and>
           (\<forall>j<n. key (memories s ! j) \<noteq> k) \<and>
           getMemory k s = (mvalue (memories s ! n), timestamp (memories s ! n))" by blast
qed

theorem getMemory_total_witness:
  "''c'' \<notin> key ` set (memories ex_agent) \<and> getMemory ''c'' ex_agent = ([], 0) \<and>
   ''b'' \<in> key ` set (memories ex_agent) \<and> getMemory ''b'' ex_agent = (''y'', 102)"
proof -
  have c: "''c'' \<notin> key ` set (memories ex_agent)"
    and b: "''b'' \<in> key ` set (memories ex_agent)"
    by (simp_all add: ex_agent_memories)
  from getMemory_total [of "''c''" ex_agent] c
  have r1: "getMemory ''c'' ex_agent = ([], 0)" by blast
  from getMemory_total [of "''b''" ex_agent] b
  obtain n where n: "n < length (memories ex_agent)" "key (memories ex_agent ! n) = ''b''"
    and g: "getMemory ''b'' ex_agent = (mvalue (memories ex_agent ! n), timestamp (memories ex_agent ! n))"
    by blast
  from n have "n = 1"
    by (cases n) (simp_all add: ex_agent_memories)
  with g have r2: "getMemory ''b'' ex_agent = (''y'', 102)"
    by (simp add: ex_agent_memories)
  from c r1 b r2 show ?thesis by blast
qed

section \<open>Storing a memory\<close>

lemma index_inv_absent: "index_inv ks idx \<Longrightarrow> k \<notin> set ks \<Longrightarrow> idx k = 0"
  unfolding index_inv_def by blast

lemma index_inv_present:
  "index_inv ks idx \<Longrightarrow> k \<in> set ks \<Longrightarrow> 0 < idx k \<and> idx k \<le> length ks \<and> ks ! (idx k - 1) = k"
  unfolding index_inv_def by blast

lemma index_inv_distinct: "index_inv ks idx \<Longrightarrow> distinct ks"
  unfolding index_inv_def by blast

lemma index_inv_append:
  assumes inv: "index_inv ks idx" and new: "k \<notin> set ks"
  shows "index_inv (ks @ [k]) (idx(k := length ks + 1))"
  unfolding index_inv_def
proof (intro conjI allI impI)
  show "distinct (ks @ [k])"
    using index_inv_distinct [OF inv] new by simp
next
  fix k' assume "k' \<notin> set (ks @ [k])"
  then have "k' \<noteq> k" "k' \<notin> set ks" by auto
  then show "(idx(k := length ks + 1)) k' = 0"
    using index_inv_absent [OF inv] by simp
next
  fix k' assume "k' \<in> set (ks @ [k])"
  then show "0 < (idx(k := length ks + 1)) k'"
    using index_inv_present [OF inv, of k'] by (cases "k' = k") auto
next
  fix k' assume "k' \<in> set (ks @ [k])"
  then show "(idx(k := length ks + 1)) k' \<le> length (ks @ [k])"
    using index_inv_present [OF inv, of k'] by (cases "k' = k") auto
next
  fix k' assume mem: "k' \<in> set (ks @ [k])"
  show "(ks @ [k]) ! ((idx(k := length ks + 1)) k' - 1) = k'"
  proof (cases "k' = k")
    case True
    then show ?thesis by simp
  next
    case False
    with mem have "k' \<in> set ks" by simp
    from index_inv_present [OF inv this]
    have "idx k' - 1 < length ks" "ks ! (idx k' - 1) = k'" by auto
    with False show ?thesis by (simp add: nth_append)
  qed
qed

lemma storeMemory_loop_none:
  "(\<forall>j. i \<le> j \<and> j < length ms \<longrightarrow> key (ms ! j) \<noteq> k) \<Longrightarrow>
   storeMemory_loop k v ts ms i = (ms, False)"
proof (induction k v ts ms i rule: storeMemory_loop.induct)
  case (1 k v ts ms i)
  show ?case
  proof (cases "i < length ms")
    case True
    with "1.prems" have ne: "key (ms ! i) \<noteq> k" by simp
    have "storeMemory_loop k v ts ms (i + 1) = (ms, False)"
      using "1.IH" [OF True ne] "1.prems" by simp
    with True ne show ?thesis by (subst storeMemory_loop.simps) simp
  next
    case False
    then show ?thesis by (subst storeMemory_loop.simps) simp
  qed
qed

lemma storeMemory_loop_first:
  "i \<le> n \<Longrightarrow> n < length ms \<Longrightarrow> key (ms ! n) = k \<Longrightarrow>
   (\<forall>j. i \<le> j \<and> j < n \<longrightarrow> key (ms ! j) \<noteq> k) \<Longrightarrow>
   storeMemory_loop k v ts ms i = (ms[n := (ms ! n)\<lparr>mvalue := v, timestamp := ts\<rparr>], True)"
proof (induction k v ts ms i rule: storeMemory_loop.induct)
  case (1 k v ts ms i)
  from "1.prems" have lt: "i < length ms" by simp
  show ?case
  proof (cases "i = n")
    case True
    with "1.prems" lt show ?thesis by (subst storeMemory_loop.simps) simp
  next
    case False
    with "1.prems" have ne: "key (ms ! i) \<noteq> k" and le: "i + 1 \<le> n" by auto
    have "storeMemory_loop k v ts ms (i + 1) =
            (ms[n := (ms ! n)\<lparr>mvalue := v, timestamp := ts\<rparr>], True)"
      using "1.IH" [OF lt ne le] "1.prems" by simp
    with lt ne show ?thesis by (subst storeMemory_loop.simps) simp
  qed
qed

lemma Memory_overwrite:
  "key m = k \<Longrightarrow> m\<lparr>mvalue := v, timestamp := ts\<rparr> = \<lparr>key = k, mvalue = v, timestamp = ts\<rparr>"
  by (cases m) simp

lemma storeMemory_existing:
  assumes inv: "mem_inv s" and auth: "sender = owner s \<or> sender = factory s"
    and mem: "k \<in> set (map key (memories s))"
  shows "storeMemory sender ts k v s =
           Inr (s\<lparr>memories := (memories s)[memoryIndex s k - 1 :=
                    \<lparr>key = k, mvalue = v, timestamp = ts\<rparr>]\<rparr>)"
proof -
  from index_inv_present [OF inv [unfolded mem_inv_def] mem]
  have idx: "0 < memoryIndex s k" "memoryIndex s k - 1 < length (memories s)"
    and at: "map key (memories s) ! (memoryIndex s k - 1) = k"
    by auto
  from at idx have "key (memories s ! (memoryIndex s k - 1)) = k" by simp
  then have "(memories s ! (memoryIndex s k - 1))\<lparr>mvalue := v, timestamp := ts\<rparr> =
               \<lparr>key = k, mvalue = v, timestamp = ts\<rparr>"
    by (rule Memory_overwrite)
  with idx auth show ?thesis
    by (simp add: storeMemory_def Let_def)
qed

lemma storeMemory_new:
  assumes inv: "mem_inv s" and auth: "sender = owner s \<or> sender = factory s"
    and mem: "k \<notin> set (map key (memories s))"
  shows "storeMemory sender ts k v s =
           Inr (s\<lparr>memories := memories s @ [\<lparr>key = k, mvalue = v, timestamp = ts\<rparr>],
                  memoryIndex := (memoryIndex s)(k := length (memories s) + 1)\<rparr>)"
proof -
  from index_inv_absent [OF inv [unfolded mem_inv_def] mem]
  have idx: "memoryIndex s k = 0" .
  from mem have "\<forall>j. 0 \<le> j \<and> j < length (memories s) \<longrightarrow> key (memories s ! j) \<noteq> k"
    by (metis image_eqI list.set_map nth_mem)
  then have "storeMemory_loop k v ts (memories s) 0 = (memories s, False)"
    by (rule storeMemory_loop_none)
  with idx auth show ?thesis
    by (simp add: storeMemory_def Let_def)
qed

lemma mem_inv_existing:
  assumes inv: "mem_inv s" and mem: "k \<in> set (map key (memories s))"
  shows "mem_inv (s\<lparr>memories := (memories s)[memoryIndex s k - 1 :=
                    \<lparr>key = k, mvalue = v, timestamp = ts\<rparr>]\<rparr>)"
proof -
  from index_inv_present [OF inv [unfolded mem_inv_def] mem]
  have at: "map key (memories s) ! (memoryIndex s k - 1) = k" by simp
  have "map key ((memories s)[memoryIndex s k - 1 := \<lparr>key = k, mvalue = v, timestamp = ts\<rparr>])
          = (map key (memories s))[memoryIndex s k - 1 := k]"
    by (simp add: map_update)
  also have "\<dots> = map key (memories s)"
    using at by (metis list_update_id)
  finally have keys: "map key ((memories s)[memoryIndex s k - 1 :=
       \<lparr>key = k, mvalue = v, timestamp = ts\<rparr>]) = map key (memories s)" .
  let ?s' = "s\<lparr>memories := (memories s)[memoryIndex s k - 1 :=
                    \<lparr>key = k, mvalue = v, timestamp = ts\<rparr>]\<rparr>"
  have keys': "map key (memories ?s') = map key (memories s)"
    using keys by simp
  have idx': "memoryIndex ?s' = memoryIndex s" by simp
  show ?thesis
    using inv unfolding mem_inv_def keys' idx' .
qed

lemma mem_inv_new:
  assumes inv: "mem_inv s" and mem: "k \<notin> set (map key (memories s))"
  shows "mem_inv (s\<lparr>memories := memories s @ [\<lparr>key = k, mvalue = v, timestamp = ts\<rparr>],
                  memoryIndex := (memoryIndex s)(k := length (memories s) + 1)\<rparr>)"
  using index_inv_append [OF inv [unfolded mem_inv_def] mem]
  unfolding mem_inv_def by simp


lemma mem_inv_constructor: "mem_inv (Agent_constructor d t0 own g)"
  by (simp add: mem_inv_def index_inv_def Agent_constructor_def)

lemma storeMemory_auth:
  "storeMemory sender ts k v s = Inr s' \<Longrightarrow> sender = owner s \<or> sender = factory s"
  by (cases "sender = owner s \<or> sender = factory s") (simp_all add: storeMemory_def)

lemma mem_inv_storeMemory:
  assumes inv: "mem_inv s" and res: "storeMemory sender ts k v s = Inr s'"
  shows "mem_inv s'"
proof -
  from res have auth: "sender = owner s \<or> sender = factory s"
    by (rule storeMemory_auth)
  show ?thesis
  proof (cases "k \<in> set (map key (memories s))")
    case True
    have "Inr (s\<lparr>memories := (memories s)[memoryIndex s k - 1 :=
                    \<lparr>key = k, mvalue = v, timestamp = ts\<rparr>]\<rparr>) = (Inr s' :: revert + Agent)"
      using storeMemory_existing [OF inv auth True, of ts v] res by (rule trans [OF sym])
    then have "s\<lparr>memories := (memories s)[memoryIndex s k - 1 :=
                    \<lparr>key = k, mvalue = v, timestamp = ts\<rparr>]\<rparr> = s'"
      by (rule Inr_inject)
    with mem_inv_existing [OF inv True, of v ts] show ?thesis by (rule subst [rotated])
  next
    case False
    have "Inr (s\<lparr>memories := memories s @ [\<lparr>key = k, mvalue = v, timestamp = ts\<rparr>],
                  memoryIndex := (memoryIndex s)(k := length (memories s) + 1)\<rparr>)
            = (Inr s' :: revert + Agent)"
      using storeMemory_new [OF inv auth False, of ts v] res by (rule trans [OF sym])
    then have "s\<lparr>memories := memories s @ [\<lparr>key = k, mvalue = v, timestamp = ts\<rparr>],
                  memoryIndex := (memoryIndex s)(k := length (memories s) + 1)\<rparr> = s'"
      by (rule Inr_inject)
    with mem_inv_new [OF inv False, of v ts] show ?thesis by (rule subst [rotated])
  qed
qed

lemma storeMemory_Inr_fields:
  assumes "storeMemory c n k v s = Inr s'"
  shows "owner s' = owner s \<and> factory s' = factory s \<and> goal s' = goal s \<and>
         lastResponse s' = lastResponse s \<and> lastExecutionTime s' = lastExecutionTime s \<and>
         executionCount s' = executionCount s \<and> isActive s' = isActive s"
  using assms
  by (simp add: storeMemory_def Let_def split: if_splits prod.splits) auto

lemma updateGoal_Inr:
  "updateGoal c n g s = Inr s' \<Longrightarrow> c = owner s \<and> s' = s\<lparr>goal := g\<rparr>"
  by (cases "c = owner s") (simp_all add: updateGoal_def)

lemma storeResponse_Inr:
  "storeResponse c n r s = Inr s' \<Longrightarrow>
     (c = owner s \<or> c = factory s) \<and> executionCount s + 1 \<le> MAX_UINT256 \<and>
     s' = s\<lparr>lastResponse := r, lastExecutionTime := n, executionCount := executionCount s + 1\<rparr>"
  by (cases "c = owner s \<or> c = factory s"; cases "executionCount s + 1 > MAX_UINT256")
     (simp_all add: storeResponse_def)

lemma setActive_Inr:
  "setActive c n b s = Inr s' \<Longrightarrow> c = owner s \<and> s' = s\<lparr>isActive := b\<rparr>"
  by (cases "c = owner s") (simp_all add: setActive_def)

lemma transferOwnership_Inr:
  "transferOwnership c n a s = Inr s' \<Longrightarrow> c = owner s \<and> a \<noteq> 0 \<and> s' = s\<lparr>owner := a\<rparr>"
  by (cases "c = owner s"; cases "a = 0") (simp_all add: transferOwnership_def)

lemma mem_inv_exec:
  assumes inv: "mem_inv s" and res: "exec t s = Inr s'"
  shows "mem_inv s'"
proof (cases "tx_call t")
  case (StoreMemory k v)
  with res have "storeMemory (tx_sender t) (tx_time t) k v s = Inr s'"
    by (simp add: exec_def)
  with inv show ?thesis by (rule mem_inv_storeMemory)
next
  case (UpdateGoal g)
  with res have "updateGoal (tx_sender t) (tx_time t) g s = Inr s'"
    by (simp add: exec_def)
  then have "s' = s\<lparr>goal := g\<rparr>" by (simp add: updateGoal_Inr)
  with inv show ?thesis by (simp add: mem_inv_def)
next
  case (StoreResponse r)
  with res have "storeResponse (tx_sender t) (tx_time t) r s = Inr s'"
    by (simp add: exec_def)
  from storeResponse_Inr [OF this] inv show ?thesis by (simp add: mem_inv_def)
next
  case (SetActive b)
  with res have "setActive (tx_sender t) (tx_time t) b s = Inr s'"
    by (simp add: exec_def)
  from setActive_Inr [OF this] inv show ?thesis by (simp add: mem_inv_def)
next
  case (TransferOwnership a)
  with res have "transferOwnership (tx_sender t) (tx_time t) a s = Inr s'"
    by (simp add: exec_def)
  from transferOwnership_Inr [OF this] inv show ?thesis by (simp add: mem_inv_def)
qed

lemma mem_inv_apply_tx: "mem_inv s \<Longrightarrow> mem_inv (apply_tx s t)"
proof (cases "exec t s")
  case (Inl e)
  assume "mem_inv s"
  with Inl show ?thesis by (simp add: apply_tx_def)
next
  case (Inr s')
  assume "mem_inv s"
  from mem_inv_exec [OF this Inr] Inr show ?thesis by (simp add: apply_tx_def)
qed

lemma run_snoc: "run s (txs @ [t]) = apply_tx (run s txs) t"
  by (simp add: run_def)

lemma mem_inv_run: "mem_inv s \<Longrightarrow> mem_inv (run s txs)"
  by (induction txs rule: rev_induct) (simp_all add: run_def mem_inv_apply_tx)

lemma getMemory_after_update:
  assumes d: "distinct (map key ms)" and n: "n < length ms" and kn: "key (ms ! n) = k"
  shows "getMemory_loop k (ms[n := \<lparr>key = k, mvalue = v, timestamp = ts\<rparr>]) 0 = (v, ts)"
proof -
  let ?ms' = "ms[n := \<lparr>key = k, mvalue = v, timestamp = ts\<rparr>]"
  have first: "\<forall>j. 0 \<le> j \<and> j < n \<longrightarrow> key (?ms' ! j) \<noteq> k"
  proof (intro allI impI)
    fix j assume j: "0 \<le> j \<and> j < n"
    with n have jl: "j < length (map key ms)" and nl: "n < length (map key ms)" by simp_all
    from nth_eq_iff_index_eq [OF d jl nl] j have "map key ms ! j \<noteq> map key ms ! n" by simp
    with jl nl have "key (ms ! j) \<noteq> key (ms ! n)" by simp
    with j n kn show "key (?ms' ! j) \<noteq> k" by simp
  qed
  have "getMemory_loop k ?ms' 0 = (mvalue (?ms' ! n), timestamp (?ms' ! n))"
    by (rule getMemory_loop_first) (use n first in simp_all)
  with n show ?thesis by simp
qed

lemma getMemory_after_append:
  assumes new: "k \<notin> set (map key ms)"
  shows "getMemory_loop k (ms @ [\<lparr>key = k, mvalue = v, timestamp = ts\<rparr>]) 0 = (v, ts)"
proof -
  let ?ms' = "ms @ [\<lparr>key = k, mvalue = v, timestamp = ts\<rparr>]"
  have first: "\<forall>j. 0 \<le> j \<and> j < length ms \<longrightarrow> key (?ms' ! j) \<noteq> k"
  proof (intro allI impI)
    fix j assume j: "0 \<le> j \<and> j < length ms"
    then have "key (ms ! j) \<in> set (map key ms)" by simp
    with new j show "key (?ms' ! j) \<noteq> k" by (auto simp: nth_append)
  qed
  have "getMemory_loop k ?ms' 0 = (mvalue (?ms' ! length ms), timestamp (?ms' ! length ms))"
    by (rule getMemory_loop_first) (use first in simp_all)
  then show ?thesis by simp
qed

text \<open>
  C1. An agent reached from its construction by any sequence of transactions holds at
  most one entry per key. On such an agent \<open>storeMemory\<close>, called by the owner or the
  factory, succeeds; for a key that is already there it overwrites the value and the
  timestamp of that entry in place, at its position, and for a new key it appends an entry
  at the end. After the call the keys are still distinct and \<open>getMemory\<close> returns the
  value and the timestamp just stored.
\<close>

theorem storeMemory_upsert:
  assumes reach: "s = run (Agent_constructor deployer t0 own g) txs"
    and auth: "sender = owner s \<or> sender = factory s"
  shows "distinct (map key (memories s)) \<and>
         (\<exists>s'. storeMemory sender ts k v s = Inr s' \<and>
            distinct (map key (memories s')) \<and>
            (k \<in> set (map key (memories s)) \<longrightarrow>
               (\<exists>n<length (memories s). key (memories s ! n) = k \<and>
                  memories s' = (memories s)[n := \<lparr>key = k, mvalue = v, timestamp = ts\<rparr>])) \<and>
            (k \<notin> set (map key (memories s)) \<longrightarrow>
               memories s' = memories s @ [\<lparr>key = k, mvalue = v, timestamp = ts\<rparr>]) \<and>
            getMemory k s' = (v, ts))"
proof -
  have inv: "mem_inv s"
    unfolding reach by (rule mem_inv_run [OF mem_inv_constructor])
  then have d: "distinct (map key (memories s))"
    unfolding mem_inv_def by (rule index_inv_distinct)
  show ?thesis
  proof (cases "k \<in> set (map key (memories s))")
    case True
    define n where "n = memoryIndex s k - 1"
    define s' where "s' = s\<lparr>memories := (memories s)[n := \<lparr>key = k, mvalue = v, timestamp = ts\<rparr>]\<rparr>"
    have res: "storeMemory sender ts k v s = Inr s'"
      unfolding s'_def n_def by (rule storeMemory_existing [OF inv auth True])
    from index_inv_present [OF inv [unfolded mem_inv_def] True]
    have n: "n < length (memories s)" and kn: "key (memories s ! n) = k"
      unfolding n_def by auto
    have m': "memories s' = (memories s)[n := \<lparr>key = k, mvalue = v, timestamp = ts\<rparr>]"
      unfolding s'_def by simp
    have "mem_inv s'"
      unfolding s'_def n_def by (rule mem_inv_existing [OF inv True])
    then have d': "distinct (map key (memories s'))"
      unfolding mem_inv_def by (rule index_inv_distinct)
    have g: "getMemory k s' = (v, ts)"
      unfolding getMemory_def m' by (rule getMemory_after_update [OF d n kn])
    have ex: "\<exists>n<length (memories s). key (memories s ! n) = k \<and>
            memories s' = (memories s)[n := \<lparr>key = k, mvalue = v, timestamp = ts\<rparr>]"
      by (rule exI [where x = n]) (intro conjI n kn m')
    show ?thesis
    proof (intro conjI exI [where x = s'] impI)
      show "distinct (map key (memories s))" by (rule d)
      show "storeMemory sender ts k v s = Inr s'" by (rule res)
      show "distinct (map key (memories s'))" by (rule d')
      show "\<exists>n<length (memories s). key (memories s ! n) = k \<and>
            memories s' = (memories s)[n := \<lparr>key = k, mvalue = v, timestamp = ts\<rparr>]"
        by (rule ex)
      show "memories s' = memories s @ [\<lparr>key = k, mvalue = v, timestamp = ts\<rparr>]"
        if "k \<notin> set (map key (memories s))" using that True by simp
      show "getMemory k s' = (v, ts)" by (rule g)
    qed
  next
    case False
    define s' where "s' = s\<lparr>memories := memories s @ [\<lparr>key = k, mvalue = v, timestamp = ts\<rparr>],
                  memoryIndex := (memoryIndex s)(k := length (memories s) + 1)\<rparr>"
    have res: "storeMemory sender ts k v s = Inr s'"
      unfolding s'_def by (rule storeMemory_new [OF inv auth False])
    have m': "memories s' = memories s @ [\<lparr>key = k, mvalue = v, timestamp = ts\<rparr>]"
      unfolding s'_def by simp
    have "mem_inv s'"
      unfolding s'_def by (rule mem_inv_new [OF inv False])
    then have d': "distinct (map key (memories s'))"
      unfolding mem_inv_def by (rule index_inv_distinct)
    have g: "getMemory k s' = (v, ts)"
      unfolding getMemory_def m' by (rule getMemory_after_append [OF False])
    show ?thesis
    proof (intro conjI exI [where x = s'] impI)
      show "distinct (map key (memories s))" by (rule d)
      show "storeMemory sender ts k v s = Inr s'" by (rule res)
      show "distinct (map key (memories s'))" by (rule d')
      show "\<exists>n<length (memories s). key (memories s ! n) = k \<and>
            memories s' = (memories s)[n := \<lparr>key = k, mvalue = v, timestamp = ts\<rparr>]"
        if "k \<in> set (map key (memories s))" using that False by simp
      show "memories s' = memories s @ [\<lparr>key = k, mvalue = v, timestamp = ts\<rparr>]"
        by (rule m')
      show "getMemory k s' = (v, ts)" by (rule g)
    qed
  qed
qed

theorem storeMemory_upsert_witness:
  "ex_agent = run (Agent_constructor 9 100 1 ''g'')
     [\<lparr>tx_sender = 1, tx_time = 101, tx_call = StoreMemory ''a'' ''x''\<rparr>,
      \<lparr>tx_sender = 9, tx_time = 102, tx_call = StoreMemory ''b'' ''y''\<rparr>] \<and>
   (1 = owner ex_agent \<or> 1 = factory ex_agent) \<and>
   ''a'' \<in> set (map key (memories ex_agent)) \<and>
   ''c'' \<notin> set (map key (memories ex_agent)) \<and>
   (\<exists>s'. storeMemory 1 103 ''a'' ''z'' ex_agent = Inr s' \<and>
      memories s' = [\<lparr>key = ''a'', mvalue = ''z'', timestamp = 103\<rparr>,
                      \<lparr>key = ''b'', mvalue = ''y'', timestamp = 102\<rparr>]) \<and>
   (\<exists>s'. storeMemory 1 103 ''c'' ''z'' ex_agent = Inr s' \<and>
      memories s' = [\<lparr>key = ''a'', mvalue = ''x'', timestamp = 101\<rparr>,
                      \<lparr>key = ''b'', mvalue = ''y'', timestamp = 102\<rparr>,
                      \<lparr>key = ''c'', mvalue = ''z'', timestamp = 103\<rparr>])"
proof -
  have reach: "ex_agent = run (Agent_constructor 9 100 1 ''g'')
     [\<lparr>tx_sender = 1, tx_time = 101, tx_call = StoreMemory ''a'' ''x''\<rparr>,
      \<lparr>tx_sender = 9, tx_time = 102, tx_call = StoreMemory ''b'' ''y''\<rparr>]"
    by (rule ex_agent_def)
  have auth: "1 = owner ex_agent \<or> 1 = factory ex_agent"
    by (simp add: ex_agent_owner)
  have a: "''a'' \<in> set (map key (memories ex_agent))"
    and c: "''c'' \<notin> set (map key (memories ex_agent))"
    by (simp_all add: ex_agent_memories)
  from storeMemory_upsert [OF reach auth, of 103 "''a''" "''z''"] a
  obtain s1 n where s1: "storeMemory 1 103 ''a'' ''z'' ex_agent = Inr s1"
    and n: "n < length (memories ex_agent)" "key (memories ex_agent ! n) = ''a''"
    and m1: "memories s1 = (memories ex_agent)[n := \<lparr>key = ''a'', mvalue = ''z'', timestamp = 103\<rparr>]"
    by blast
  from n have "n = 0"
    by (cases n) (simp_all add: ex_agent_memories)
  with m1 have m1': "memories s1 = [\<lparr>key = ''a'', mvalue = ''z'', timestamp = 103\<rparr>,
                      \<lparr>key = ''b'', mvalue = ''y'', timestamp = 102\<rparr>]"
    by (simp add: ex_agent_memories)
  from storeMemory_upsert [OF reach auth, of 103 "''c''" "''z''"] c
  obtain s2 where s2: "storeMemory 1 103 ''c'' ''z'' ex_agent = Inr s2"
    and m2: "memories s2 = memories ex_agent @ [\<lparr>key = ''c'', mvalue = ''z'', timestamp = 103\<rparr>]"
    by blast
  from m2 have m2': "memories s2 = [\<lparr>key = ''a'', mvalue = ''x'', timestamp = 101\<rparr>,
                      \<lparr>key = ''b'', mvalue = ''y'', timestamp = 102\<rparr>,
                      \<lparr>key = ''c'', mvalue = ''z'', timestamp = 103\<rparr>]"
    by (simp add: ex_agent_memories)
  from reach auth a c s1 m1' s2 m2' show ?thesis by blast
qed

section \<open>Updating the goal\<close>

text \<open>
  The owner can store an empty goal, and a goal of blanks: \<open>updateGoal\<close> does not look at
  the text.
\<close>

theorem updateGoal_empty_counterexample:
  "updateGoal 1 200 [] (Agent_constructor 9 100 1 ''g'') =
     Inr ((Agent_constructor 9 100 1 ''g'')\<lparr>goal := []\<rparr>) \<and>
   updateGoal 1 200 ''  '' (Agent_constructor 9 100 1 ''g'') =
     Inr ((Agent_constructor 9 100 1 ''g'')\<lparr>goal := ''  ''\<rparr>)"
  by (simp add: updateGoal_def Agent_constructor_def)

lemma goal_apply_tx:
  assumes "goal (apply_tx s t) \<noteq> goal s"
  shows "tx_sender t = owner s \<and> tx_call t = UpdateGoal (goal (apply_tx s t))"
proof (cases "exec t s")
  case (Inl e)
  with assms show ?thesis by (simp add: apply_tx_def)
next
  case (Inr s')
  then have a: "apply_tx s t = s'" by (simp add: apply_tx_def)
  show ?thesis
  proof (cases "tx_call t")
    case (UpdateGoal g)
    with Inr have "updateGoal (tx_sender t) (tx_time t) g s = Inr s'" by (simp add: exec_def)
    from updateGoal_Inr [OF this] a UpdateGoal show ?thesis by simp
  next
    case (StoreResponse r)
    with Inr have "storeResponse (tx_sender t) (tx_time t) r s = Inr s'" by (simp add: exec_def)
    from storeResponse_Inr [OF this] a assms show ?thesis by simp
  next
    case (StoreMemory k v)
    with Inr have "storeMemory (tx_sender t) (tx_time t) k v s = Inr s'" by (simp add: exec_def)
    from storeMemory_Inr_fields [OF this] a assms show ?thesis by simp
  next
    case (SetActive b)
    with Inr have "setActive (tx_sender t) (tx_time t) b s = Inr s'" by (simp add: exec_def)
    from setActive_Inr [OF this] a assms show ?thesis by simp
  next
    case (TransferOwnership x)
    with Inr have "transferOwnership (tx_sender t) (tx_time t) x s = Inr s'" by (simp add: exec_def)
    from transferOwnership_Inr [OF this] a assms show ?thesis by simp
  qed
qed

text \<open>
  C3 (as the contract has it). \<open>updateGoal\<close> succeeds exactly when the caller is the
  owner of the agent and reverts with "Only owner can call this function" otherwise. When
  it succeeds it stores the new goal as it is given, whatever the text, and changes
  nothing else. No other transaction changes the goal: when a transaction leaves a
  different goal, it is an \<open>updateGoal\<close> of the owner with that goal.
\<close>

theorem updateGoal_owner_only:
  "((\<exists>s'. updateGoal msg_sender block_timestamp newGoal s = Inr s') \<longleftrightarrow> msg_sender = owner s) \<and>
   (msg_sender \<noteq> owner s \<longrightarrow> updateGoal msg_sender block_timestamp newGoal s = Inl OnlyOwner) \<and>
   (msg_sender = owner s \<longrightarrow>
      updateGoal msg_sender block_timestamp newGoal s = Inr (s\<lparr>goal := newGoal\<rparr>)) \<and>
   (goal (apply_tx s t) \<noteq> goal s \<longrightarrow>
      tx_sender t = owner s \<and> tx_call t = UpdateGoal (goal (apply_tx s t)))"
proof (intro conjI impI)
  show "(\<exists>s'. updateGoal msg_sender block_timestamp newGoal s = Inr s') \<longleftrightarrow> msg_sender = owner s"
    by (cases "msg_sender = owner s") (simp_all add: updateGoal_def)
next
  assume "msg_sender \<noteq> owner s"
  then show "updateGoal msg_sender block_timestamp newGoal s = Inl OnlyOwner"
    by (simp add: updateGoal_def)
next
  assume "msg_sender = owner s"
  then show "updateGoal msg_sender block_timestamp newGoal s = Inr (s\<lparr>goal := newGoal\<rparr>)"
    by (simp add: updateGoal_def)
next
  assume "goal (apply_tx s t) \<noteq> goal s"
  then show "tx_sender t = owner s" and "tx_call t = UpdateGoal (goal (apply_tx s t))"
    by (simp_all add: goal_apply_tx)
qed

theorem updateGoal_owner_only_witness:
  "(2::nat) \<noteq> owner (Agent_constructor 9 100 1 ''g'') \<and>
   updateGoal 2 200 ''h'' (Agent_constructor 9 100 1 ''g'') = Inl OnlyOwner \<and>
   (1::nat) = owner (Agent_constructor 9 100 1 ''g'') \<and>
   updateGoal 1 200 [] (Agent_constructor 9 100 1 ''g'') =
     Inr ((Agent_constructor 9 100 1 ''g'')\<lparr>goal := []\<rparr>) \<and>
   goal (apply_tx (Agent_constructor 9 100 1 ''g'')
           \<lparr>tx_sender = 1, tx_time = 200, tx_call = UpdateGoal ''h''\<rparr>) \<noteq>
     goal (Agent_constructor 9 100 1 ''g'') \<and>
   tx_sender \<lparr>tx_sender = 1, tx_time = 200, tx_call = UpdateGoal ''h''\<rparr> =
     owner (Agent_constructor 9 100 1 ''g'')"
proof -
  let ?ag = "Agent_constructor 9 100 1 ''g''"
  let ?t = "\<lparr>tx_sender = 1, tx_time = 200, tx_call = UpdateGoal ''h''\<rparr>"
  have o: "owner ?ag = 1"
    by (simp add: Agent_constructor_def)
  from updateGoal_owner_only [of 2 200 "''h''" ?ag] o
  have r1: "updateGoal 2 200 ''h'' ?ag = Inl OnlyOwner"
    by simp
  from updateGoal_owner_only [of 1 200 "[]" ?ag] o
  have r2: "updateGoal 1 200 [] ?ag = Inr (?ag\<lparr>goal := []\<rparr>)"
    by simp
  have c: "goal (apply_tx ?ag ?t) \<noteq> goal ?ag"
    by (simp add: apply_tx_def exec_def updateGoal_def Agent_constructor_def)
  with updateGoal_owner_only [of 1 200 "[]" ?ag ?t]
  have r3: "tx_sender ?t = owner ?ag" by blast
  from o r1 r2 c r3 show ?thesis by simp
qed

section \<open>Committing a result\<close>

lemma lastExecutionTime_apply_tx:
  "lastExecutionTime (apply_tx s t) = lastExecutionTime s \<or>
   lastExecutionTime (apply_tx s t) = tx_time t"
proof (cases "exec t s")
  case (Inl e)
  then show ?thesis by (simp add: apply_tx_def)
next
  case (Inr s')
  then have a: "apply_tx s t = s'" by (simp add: apply_tx_def)
  show ?thesis
  proof (cases "tx_call t")
    case (UpdateGoal g)
    with Inr have "updateGoal (tx_sender t) (tx_time t) g s = Inr s'" by (simp add: exec_def)
    from updateGoal_Inr [OF this] a show ?thesis by simp
  next
    case (StoreResponse r)
    with Inr have "storeResponse (tx_sender t) (tx_time t) r s = Inr s'" by (simp add: exec_def)
    from storeResponse_Inr [OF this] a show ?thesis by simp
  next
    case (StoreMemory k v)
    with Inr have r: "storeMemory (tx_sender t) (tx_time t) k v s = Inr s'" by (simp add: exec_def)
    have "lastExecutionTime s' = lastExecutionTime s"
      using r by (simp add: storeMemory_def Let_def split: if_splits prod.splits) auto
    with a show ?thesis by simp
  next
    case (SetActive b)
    with Inr have "setActive (tx_sender t) (tx_time t) b s = Inr s'" by (simp add: exec_def)
    from setActive_Inr [OF this] a show ?thesis by simp
  next
    case (TransferOwnership x)
    with Inr have "transferOwnership (tx_sender t) (tx_time t) x s = Inr s'" by (simp add: exec_def)
    from transferOwnership_Inr [OF this] a show ?thesis by simp
  qed
qed

lemma chain_ok_snoc:
  assumes "chain_ok t0 (txs @ [t])"
  shows "chain_ok t0 txs \<and> last (t0 # map tx_time txs) \<le> tx_time t"
proof -
  from assms have s: "sorted ((t0 # map tx_time txs) @ [tx_time t])"
    by (simp add: chain_ok_def)
  then have "sorted (t0 # map tx_time txs)"
    and all: "\<forall>x\<in>set (t0 # map tx_time txs). x \<le> tx_time t"
    unfolding sorted_append by simp_all
  moreover have "last (t0 # map tx_time txs) \<in> set (t0 # map tx_time txs)"
    by (rule last_in_set) simp
  ultimately show ?thesis
    unfolding chain_ok_def by blast
qed

lemma lastExecutionTime_run:
  "chain_ok t0 txs \<Longrightarrow>
   lastExecutionTime (run (Agent_constructor d t0 own g) txs) \<le> last (t0 # map tx_time txs)"
proof (induction txs rule: rev_induct)
  case Nil
  show ?case by (simp add: run_def Agent_constructor_def)
next
  case (snoc t txs)
  from chain_ok_snoc [OF snoc.prems] have ok: "chain_ok t0 txs"
    and le: "last (t0 # map tx_time txs) \<le> tx_time t"
    by simp_all
  from snoc.IH [OF ok] le
  have "lastExecutionTime (run (Agent_constructor d t0 own g) txs) \<le> tx_time t" by simp
  with lastExecutionTime_apply_tx [of "run (Agent_constructor d t0 own g) txs" t]
  show ?case by (auto simp: run_snoc)
qed

text \<open>
  C4. On an agent reached from its construction by transactions of a chain, a
  \<open>storeResponse\<close> that succeeds in the next block sets \<open>lastResponse\<close> to the text and
  \<open>lastExecutionTime\<close> to the time of that block, which is not before the former
  \<open>lastExecutionTime\<close>; it adds exactly one to \<open>executionCount\<close> and leaves the
  memories and their index as they were.
\<close>

theorem storeResponse_commit:
  assumes reach: "s = run (Agent_constructor deployer t0 own g) txs"
    and chain: "chain_ok t0 (txs @ [\<lparr>tx_sender = sender, tx_time = now, tx_call = StoreResponse text\<rparr>])"
    and res: "storeResponse sender now text s = Inr s'"
  shows "lastResponse s' = text \<and>
         lastExecutionTime s' = now \<and>
         lastExecutionTime s \<le> lastExecutionTime s' \<and>
         executionCount s' = executionCount s + 1 \<and>
         memories s' = memories s \<and> memoryIndex s' = memoryIndex s"
proof -
  from chain_ok_snoc [OF chain] have ok: "chain_ok t0 txs"
    and le: "last (t0 # map tx_time txs) \<le> now"
    by simp_all
  from lastExecutionTime_run [OF ok, of deployer own g] le reach
  have "lastExecutionTime s \<le> now" by simp
  with storeResponse_Inr [OF res] show ?thesis by simp
qed

theorem storeResponse_commit_witness:
  "chain_ok 100
     ([\<lparr>tx_sender = 1, tx_time = 101, tx_call = StoreMemory ''a'' ''x''\<rparr>,
       \<lparr>tx_sender = 9, tx_time = 102, tx_call = StoreMemory ''b'' ''y''\<rparr>] @
      [\<lparr>tx_sender = 1, tx_time = 150, tx_call = StoreResponse ''r''\<rparr>]) \<and>
   (\<exists>s'. storeResponse 1 150 ''r'' ex_agent = Inr s' \<and>
      lastResponse s' = ''r'' \<and> lastExecutionTime s' = 150 \<and>
      lastExecutionTime ex_agent \<le> lastExecutionTime s' \<and>
      executionCount s' = 1 \<and> memories s' = memories ex_agent)"
proof -
  have chain: "chain_ok 100
     ([\<lparr>tx_sender = 1, tx_time = 101, tx_call = StoreMemory ''a'' ''x''\<rparr>,
       \<lparr>tx_sender = 9, tx_time = 102, tx_call = StoreMemory ''b'' ''y''\<rparr>] @
      [\<lparr>tx_sender = 1, tx_time = 150, tx_call = StoreResponse ''r''\<rparr>])"
    by (simp add: chain_ok_def)
  have res: "storeResponse 1 150 ''r'' ex_agent =
     Inr (ex_agent\<lparr>lastResponse := ''r'', lastExecutionTime := 150,
                     executionCount := executionCount ex_agent + 1\<rparr>)"
    by (simp add: storeResponse_def ex_agent_owner ex_agent_executionCount MAX_UINT256_def)
  from storeResponse_commit [OF ex_agent_def chain res] res chain
  show ?thesis by (simp add: ex_agent_executionCount)
qed

section \<open>Listing the registry\<close>

lemma getAgents_loop_copy:
  "offset \<le> i \<Longrightarrow> i \<le> endIdx \<Longrightarrow> length result = endIdx - offset \<Longrightarrow>
   getAgents_loop ags offset endIdx i result =
     take (i - offset) result @ map (\<lambda>j. ags ! j) [i..<endIdx]"
proof (induction ags offset endIdx i result rule: getAgents_loop.induct)
  case (1 ags offset endIdx i result)
  show ?case
  proof (cases "i < endIdx")
    case True
    let ?r = "result[i - offset := ags ! i]"
    from True "1.prems" have pos: "i - offset < length result" by simp
    have "getAgents_loop ags offset endIdx (i + 1) ?r =
            take (i + 1 - offset) ?r @ map (\<lambda>j. ags ! j) [i + 1..<endIdx]"
      using "1.IH" [OF True] True "1.prems" by simp
    also from "1.prems" have "i + 1 - offset = Suc (i - offset)" by simp
    also have "take (Suc (i - offset)) ?r = take (i - offset) result @ [ags ! i]"
      using pos by (simp add: take_Suc_conv_app_nth)
    finally have "getAgents_loop ags offset endIdx (i + 1) ?r =
            take (i - offset) result @ map (\<lambda>j. ags ! j) (i # [i + 1..<endIdx])"
      by simp
    also from True have "i # [i + 1..<endIdx] = [i..<endIdx]"
      by (simp add: upt_conv_Cons)
    finally show ?thesis
      using True by (subst getAgents_loop.simps) simp
  next
    case False
    with "1.prems" have "i = endIdx" by simp
    with "1.prems" show ?thesis by (subst getAgents_loop.simps) simp
  qed
qed

lemma map_nth_slice:
  "endIdx \<le> length xs \<Longrightarrow> map (\<lambda>j. xs ! j) [offset..<endIdx] = take (endIdx - offset) (drop offset xs)"
  by (rule nth_equalityI) (auto simp: min_def)

lemma getAgents_Inr:
  assumes a: "offset < length (agents f)" "offset + limit \<le> MAX_UINT256"
  shows "getAgents f offset limit = Inr (take limit (drop offset (agents f)))"
proof -
  define endIdx where "endIdx = (if offset + limit > length (agents f) then length (agents f)
                      else offset + limit)"
  have e: "offset \<le> endIdx" "endIdx \<le> length (agents f)"
    using a by (auto simp: endIdx_def)
  have "getAgents f offset limit =
          Inr (getAgents_loop (agents f) offset endIdx offset (replicate (endIdx - offset) 0))"
    using a by (simp add: getAgents_def endIdx_def Let_def)
  also have "getAgents_loop (agents f) offset endIdx offset (replicate (endIdx - offset) 0) =
          map (\<lambda>j. agents f ! j) [offset..<endIdx]"
    using e by (simp add: getAgents_loop_copy)
  also have "\<dots> = take (endIdx - offset) (drop offset (agents f))"
    using e(2) by (rule map_nth_slice)
  also have "\<dots> = take limit (drop offset (agents f))"
    by (simp add: endIdx_def)
  finally show ?thesis .
qed

text \<open>
  A listing of the empty registry reverts, and so does a listing whose \<open>offset + limit\<close>
  leaves the \<open>uint256\<close> range.
\<close>

theorem getAgents_counterexample:
  "getAgents ex_empty 0 2 = Inl OffsetOutOfBounds \<and>
   getAgents ex_five 1 MAX_UINT256 = Inl ArithmeticOverflow"
  by (simp add: getAgents_def ex_empty_def ex_five_def MAX_UINT256_def)

text \<open>
  C2 (as the contract has it). With \<open>offset\<close> below the number of registered agents
  and \<open>offset + limit\<close> in the \<open>uint256\<close> range, \<open>getAgents\<close> returns the
  \<open>min limit (count - offset)\<close> addresses that start at \<open>offset\<close>, in registry order.
  With \<open>offset\<close> below the count and \<open>offset + limit\<close> out of the range it reverts
  with an arithmetic overflow. With \<open>offset\<close> at or above the count it reverts with
  "Offset out of bounds"; an empty registry is such a case for every offset.
\<close>

theorem getAgents_page:
  "(offset < length (agents f) \<and> offset + limit \<le> MAX_UINT256 \<longrightarrow>
      getAgents f offset limit = Inr (take limit (drop offset (agents f))) \<and>
      length (take limit (drop offset (agents f))) = min limit (length (agents f) - offset)) \<and>
   (offset < length (agents f) \<and> offset + limit > MAX_UINT256 \<longrightarrow>
      getAgents f offset limit = Inl ArithmeticOverflow) \<and>
   (offset \<ge> length (agents f) \<longrightarrow> getAgents f offset limit = Inl OffsetOutOfBounds) \<and>
   (agents f = [] \<longrightarrow> getAgents f offset limit = Inl OffsetOutOfBounds)"
proof (intro conjI impI)
  assume "offset < length (agents f) \<and> offset + limit \<le> MAX_UINT256"
  then show "getAgents f offset limit = Inr (take limit (drop offset (agents f)))"
    by (simp add: getAgents_Inr)
next
  show "length (take limit (drop offset (agents f))) = min limit (length (agents f) - offset)"
    by (simp add: min.commute)
next
  assume "offset < length (agents f) \<and> offset + limit > MAX_UINT256"
  then show "getAgents f offset limit = Inl ArithmeticOverflow"
    by (simp add: getAgents_def)
next
  assume "offset \<ge> length (agents f)"
  then show "getAgents f offset limit = Inl OffsetOutOfBounds"
    by (simp add: getAgents_def)
next
  assume "agents f = []"
  then show "getAgents f offset limit = Inl OffsetOutOfBounds"
    by (simp add: getAgents_def)
qed

theorem getAgents_page_witness:
  "(0::nat) < length (agents ex_five) \<and> 0 + 2 \<le> MAX_UINT256 \<and>
   getAgents ex_five 0 2 = Inr [11, 12] \<and>
   (4::nat) < length (agents ex_five) \<and> 4 + 2 \<le> MAX_UINT256 \<and>
   getAgents ex_five 4 2 = Inr [15] \<and>
   (5::nat) \<ge> length (agents ex_five) \<and>
   getAgents ex_five 5 2 = Inl OffsetOutOfBounds \<and>
   (1::nat) < length (agents ex_five) \<and> 1 + MAX_UINT256 > MAX_UINT256 \<and>
   getAgents ex_five 1 MAX_UINT256 = Inl ArithmeticOverflow \<and>
   agents ex_empty = [] \<and> getAgents ex_empty 0 2 = Inl OffsetOutOfBounds"
proof -
  have l: "agents ex_five = [11, 12, 13, 14, 15]" "agents ex_empty = []"
    by (simp_all add: ex_five_def ex_empty_def)
  have m: "(2::nat) \<le> MAX_UINT256" "(6::nat) \<le> MAX_UINT256" "0 < MAX_UINT256"
    by (simp_all add: MAX_UINT256_def)
  from getAgents_page [of 0 ex_five 2] l m
  have r1: "getAgents ex_five 0 2 = Inr [11, 12]" by simp
  from getAgents_page [of 4 ex_five 2] l m
  have r2: "getAgents ex_five 4 2 = Inr [15]" by simp
  from getAgents_page [of 5 ex_five 2] l
  have r3: "getAgents ex_five 5 2 = Inl OffsetOutOfBounds" by simp
  from getAgents_page [of 1 ex_five MAX_UINT256] l m
  have r4: "getAgents ex_five 1 MAX_UINT256 = Inl ArithmeticOverflow" by simp
  from getAgents_page [of 0 ex_empty 2] l
  have r5: "getAgents ex_empty 0 2 = Inl OffsetOutOfBounds" by simp
  from l m r1 r2 r3 r4 r5 show ?thesis by simp
qed

section \<open>The executor: one agent, then the loop\<close>

lemma executeAgent_inactive:
  assumes "L a = Some ag" and "\<not> isActive ag"
  shows "executeAgent w e a L =
           ((if infoReadOk e then SkippedInactive else Errored ReadInfo), [], L)"
  using assms by (simp add: executeAgent_def getAgentInfo_def)

lemma executeAgent_waiting:
  assumes "infoReadOk e" and "L a = Some ag" and "isActive ag"
  shows "outcome_of (executeAgent w e a L) = SkippedWaiting \<longleftrightarrow>
           currentTime e - int (lastExecutionTime ag) < minInterval \<and> executionCount ag > 0"
  using assms
  by (simp add: executeAgent_def getAgentInfo_def outcome_of_def Let_def
      split: option.splits)

lemma executeAgent_calls:
  assumes "infoReadOk e" and "L a = Some ag" and "isActive ag" and "memoriesReadOk e"
  shows "calls_of (executeAgent w e a L) =
           (if currentTime e - int (lastExecutionTime ag) < minInterval \<and> executionCount ag > 0
            then []
            else [(a, make_prompt (goal ag) (lastResponse ag) (executionCount ag) (memories ag))])"
  using assms
  by (simp add: executeAgent_def getAgentInfo_def getAllMemories_def calls_of_def Let_def
      split: option.splits)


lemma send_storeResponse_Some:
  "send_storeResponse ok w n a r L = Some L1 \<Longrightarrow>
     \<exists>ag ag1. L a = Some ag \<and> storeResponse w n r ag = Inr ag1 \<and> L1 = L(a \<mapsto> ag1)"
  by (auto simp: send_storeResponse_def split: if_splits option.splits sum.splits)

lemma send_storeMemory_Some:
  "send_storeMemory ok w n a k v L = Some L1 \<Longrightarrow>
     \<exists>ag ag1. L a = Some ag \<and> storeMemory w n k v ag = Inr ag1 \<and> L1 = L(a \<mapsto> ag1)"
  by (auto simp: send_storeMemory_def split: if_splits option.splits sum.splits)

lemma executeAgent_shape:
  "(ledger_of (executeAgent w e a L) = L \<and>
      outcome_of (executeAgent w e a L) \<noteq> Completed \<and>
      outcome_of (executeAgent w e a L) \<noteq> Errored MemorySubmit) \<or>
   (\<exists>ag resp ag1. L a = Some ag \<and> isActive ag \<and>
      storeResponse w (commitBlockTime e) resp ag = Inr ag1 \<and>
      ((outcome_of (executeAgent w e a L) = Errored MemorySubmit \<and>
        ledger_of (executeAgent w e a L) = L(a \<mapsto> ag1)) \<or>
       (\<exists>k v ag2. storeMemory w (memoryBlockTime e) k v ag1 = Inr ag2 \<and>
          outcome_of (executeAgent w e a L) = Completed \<and>
          ledger_of (executeAgent w e a L) = L(a \<mapsto> ag2))))"
proof (cases "if infoReadOk e then L a else None")
  case None
  then show ?thesis
    by (simp add: executeAgent_def outcome_of_def ledger_of_def)
next
  case (Some ag)
  then have La: "L a = Some ag" by (simp split: if_splits)
  let ?due = "\<not> (currentTime e - int (lastExecutionTime ag) < minInterval \<and> executionCount ag > 0)"
  let ?prompt = "make_prompt (goal ag) (lastResponse ag) (executionCount ag) (memories ag)"
  show ?thesis
  proof (cases "isActive ag \<and> ?due \<and> memoriesReadOk e")
    case False
    with Some show ?thesis
      by (auto simp: executeAgent_def getAgentInfo_def outcome_of_def ledger_of_def Let_def)
  next
    case True
    show ?thesis
    proof (cases "completion e ?prompt")
      case None
      with Some True show ?thesis
        by (auto simp: executeAgent_def getAgentInfo_def getAllMemories_def
            outcome_of_def ledger_of_def Let_def)
    next
      case (Some resp) note gen = this
      show ?thesis
      proof (cases "send_storeResponse (commitOk e) w (commitBlockTime e) a resp L")
        case None
        with \<open>(if infoReadOk e then L a else None) = Some ag\<close> True gen show ?thesis
          by (auto simp: executeAgent_def getAgentInfo_def getAllMemories_def
              outcome_of_def ledger_of_def Let_def)
      next
        case (Some L1) note commit = this
        from send_storeResponse_Some [OF commit] La
        obtain ag1 where ag1: "storeResponse w (commitBlockTime e) resp ag = Inr ag1"
          and L1: "L1 = L(a \<mapsto> ag1)" by auto
        show ?thesis
        proof (cases "send_storeMemory (memoryOk e) w (memoryBlockTime e) a
                        (''execution_'' @ decimal (executionCount ag))
                        (isoTime e @ '': '' @ take 200 resp) L1")
          case None
          with \<open>(if infoReadOk e then L a else None) = Some ag\<close> True gen commit
          have "outcome_of (executeAgent w e a L) = Errored MemorySubmit"
            and "ledger_of (executeAgent w e a L) = L1"
            by (auto simp: executeAgent_def getAgentInfo_def getAllMemories_def
                outcome_of_def ledger_of_def Let_def)
          with La True ag1 L1 show ?thesis by blast
        next
          case (Some L2) note mem = this
          from send_storeMemory_Some [OF mem] L1
          obtain ag2 where ag2: "storeMemory w (memoryBlockTime e)
                (''execution_'' @ decimal (executionCount ag))
                (isoTime e @ '': '' @ take 200 resp) ag1 = Inr ag2"
            and L2: "L2 = L(a \<mapsto> ag2)" by auto
          from \<open>(if infoReadOk e then L a else None) = Some ag\<close> True gen commit mem
          have "outcome_of (executeAgent w e a L) = Completed"
            and "ledger_of (executeAgent w e a L) = L2"
            by (auto simp: executeAgent_def getAgentInfo_def getAllMemories_def
                outcome_of_def ledger_of_def Let_def)
          with La True ag1 ag2 L2 show ?thesis by blast
        qed
      qed
    qed
  qed
qed


lemma executeAgent_frame:
  assumes "a' \<noteq> a"
  shows "ledger_of (executeAgent w e a L) a' = L a'"
  using executeAgent_shape [of w e a L] assms by auto


lemma executeAgent_calls_address:
  "(x, p) \<in> set (calls_of (executeAgent w e a L)) \<Longrightarrow> x = a"
  by (simp add: executeAgent_def getAgentInfo_def calls_of_def Let_def
      split: option.splits if_splits)


lemma loop_Cons:
  "executeAgents_loop w env (a # as) L =
     ((a, outcome_of (executeAgent w (env a) a L)) #
        outcome_of (executeAgents_loop w env as (ledger_of (executeAgent w (env a) a L))),
      calls_of (executeAgent w (env a) a L) @
        calls_of (executeAgents_loop w env as (ledger_of (executeAgent w (env a) a L))),
      ledger_of (executeAgents_loop w env as (ledger_of (executeAgent w (env a) a L))))"
  by (simp add: executeAgents_loop.simps outcome_of_def calls_of_def ledger_of_def
      split: prod.splits)

lemma loop_Nil: "executeAgents_loop w env [] L = ([], [], L)"
  by (simp add: executeAgents_loop.simps)

lemma loop_ledger_Cons:
  "ledger_of (executeAgents_loop w env (a # as) L) =
     ledger_of (executeAgents_loop w env as (ledger_of (executeAgent w (env a) a L)))"
  by (subst loop_Cons) (simp add: ledger_of_def)

lemma loop_calls_Cons:
  "calls_of (executeAgents_loop w env (a # as) L) =
     calls_of (executeAgent w (env a) a L) @
     calls_of (executeAgents_loop w env as (ledger_of (executeAgent w (env a) a L)))"
  by (subst loop_Cons) (simp add: calls_of_def)

lemma loop_inactive:
  assumes "L a = Some ag" and "\<not> isActive ag"
  shows "a \<notin> fst ` set (calls_of (executeAgents_loop w env page L)) \<and>
         ledger_of (executeAgents_loop w env page L) a = Some ag"
  using assms
proof (induction page arbitrary: L)
  case Nil
  then show ?case by (simp add: calls_of_def ledger_of_def loop_Nil)
next
  case (Cons b bs)
  let ?r = "executeAgent w (env b) b L"
  have keep: "ledger_of ?r a = Some ag"
  proof (cases "a = b")
    case True
    with executeAgent_inactive [where L = L and a = a and ag = ag and w = w and e = "env b"]
      Cons.prems
    show ?thesis by (simp add: ledger_of_def)
  next
    case False
    from executeAgent_frame [OF False] Cons.prems(1) show ?thesis by simp
  qed
  have none: "a \<notin> fst ` set (calls_of ?r)"
  proof (cases "a = b")
    case True
    with executeAgent_inactive [where L = L and a = a and ag = ag and w = w and e = "env b"]
      Cons.prems
    show ?thesis by (simp add: calls_of_def)
  next
    case False
    with executeAgent_calls_address [of _ _ w "env b" b L] show ?thesis by auto
  qed
  from Cons.IH [where L = "ledger_of ?r", OF keep Cons.prems(2)] none
  show ?case by (simp add: loop_calls_Cons loop_ledger_Cons image_Un)
qed

text \<open>
  C5. For an active agent whose snapshot was read, \<open>executeAgent\<close> takes its second
  early return ("waiting") or goes on; the agent is due when it goes on. An agent with
  \<open>executionCount = 0\<close> is due whatever its \<open>lastExecutionTime\<close>. An agent with
  \<open>executionCount > 0\<close> is due if and only if at least 3600 seconds lie between its
  \<open>lastExecutionTime\<close> and the clock. When the memories can be read, the completion
  service is called if and only if the agent is due.
\<close>

theorem due_for_execution:
  assumes "infoReadOk e" and "L a = Some ag" and "isActive ag"
  shows "(executionCount ag = 0 \<longrightarrow> outcome_of (executeAgent w e a L) \<noteq> SkippedWaiting) \<and>
         (executionCount ag > 0 \<longrightarrow>
            (outcome_of (executeAgent w e a L) \<noteq> SkippedWaiting \<longleftrightarrow>
             currentTime e - int (lastExecutionTime ag) \<ge> 3600)) \<and>
         (memoriesReadOk e \<longrightarrow>
            (calls_of (executeAgent w e a L) \<noteq> [] \<longleftrightarrow>
             outcome_of (executeAgent w e a L) \<noteq> SkippedWaiting))"
proof -
  from executeAgent_waiting [where L = L and a = a and ag = ag and w = w and e = e] assms
  have w: "outcome_of (executeAgent w e a L) = SkippedWaiting \<longleftrightarrow>
           currentTime e - int (lastExecutionTime ag) < minInterval \<and> executionCount ag > 0"
    by simp
  show ?thesis
  proof (intro conjI impI)
  assume "executionCount ag = 0"
  with w
  show "outcome_of (executeAgent w e a L) \<noteq> SkippedWaiting" by simp
next
  assume "executionCount ag > 0"
  with w
  show "outcome_of (executeAgent w e a L) \<noteq> SkippedWaiting \<longleftrightarrow>
        currentTime e - int (lastExecutionTime ag) \<ge> 3600"
    by (simp add: minInterval_def not_less)
next
  assume m: "memoriesReadOk e"
  from w executeAgent_calls [where L = L and a = a and ag = ag and w = w and e = e] assms m
  show "calls_of (executeAgent w e a L) \<noteq> [] \<longleftrightarrow>
        outcome_of (executeAgent w e a L) \<noteq> SkippedWaiting"
    by (simp split: if_splits)
  qed
qed

theorem due_for_execution_witness:
  "infoReadOk ex_env_ok \<and> ex_ledger 12 = Some (Agent_constructor 9 100 1 ''h'') \<and>
   isActive (Agent_constructor 9 100 1 ''h'') \<and>
   executionCount (Agent_constructor 9 100 1 ''h'') = 0 \<and>
   outcome_of (executeAgent 1 ex_env_ok 12 ex_ledger) \<noteq> SkippedWaiting \<and>
   ex_ledger 14 = Some ((Agent_constructor 9 100 1 ''j'')\<lparr>lastExecutionTime := 1000, executionCount := 3\<rparr>) \<and>
   outcome_of (executeAgent 1 ex_env_ok 14 ex_ledger) = SkippedWaiting \<and>
   outcome_of (executeAgent 1 (ex_env_ok\<lparr>currentTime := 4600\<rparr>) 14 ex_ledger) \<noteq> SkippedWaiting \<and>
   memoriesReadOk ex_env_ok \<and>
   calls_of (executeAgent 1 ex_env_ok 14 ex_ledger) = [] \<and>
   calls_of (executeAgent 1 ex_env_ok 12 ex_ledger) \<noteq> []"
proof -
  let ?h = "Agent_constructor 9 100 1 ''h''"
  let ?j = "(Agent_constructor 9 100 1 ''j'')\<lparr>lastExecutionTime := 1000, executionCount := 3\<rparr>"
  have r: "infoReadOk ex_env_ok" "infoReadOk (ex_env_ok\<lparr>currentTime := 4600\<rparr>)"
    by (simp_all add: ex_env_ok_def)
  have l12: "ex_ledger 12 = Some ?h" and l14: "ex_ledger 14 = Some ?j"
    by (simp_all add: ex_ledger_def)
  have a12: "isActive ?h" "executionCount ?h = 0" and a14: "isActive ?j" "executionCount ?j > 0"
    by (simp_all add: Agent_constructor_def)
  from due_for_execution [where L = ex_ledger and a = 12 and ag = ?h and e = ex_env_ok and w = 1]
    r l12 a12
  have w1: "outcome_of (executeAgent 1 ex_env_ok 12 ex_ledger) \<noteq> SkippedWaiting" by simp
  from due_for_execution [where L = ex_ledger and a = 14 and ag = ?j and e = ex_env_ok and w = 1]
    r l14 a14
  have w2: "outcome_of (executeAgent 1 ex_env_ok 14 ex_ledger) = SkippedWaiting"
    by (simp add: ex_env_ok_def)
  from due_for_execution [where L = ex_ledger and a = 14 and ag = ?j
      and e = "ex_env_ok\<lparr>currentTime := 4600\<rparr>" and w = 1]
    r l14 a14
  have w3: "outcome_of (executeAgent 1 (ex_env_ok\<lparr>currentTime := 4600\<rparr>) 14 ex_ledger) \<noteq> SkippedWaiting"
    by (simp add: ex_env_ok_def)
  have mr: "memoriesReadOk ex_env_ok" by (simp add: ex_env_ok_def)
  from due_for_execution [where L = ex_ledger and a = 14 and ag = ?j and e = ex_env_ok and w = 1]
    r l14 a14 mr w2
  have w4: "calls_of (executeAgent 1 ex_env_ok 14 ex_ledger) = []" by simp
  from due_for_execution [where L = ex_ledger and a = 12 and ag = ?h and e = ex_env_ok and w = 1]
    r l12 a12 mr w1
  have w5: "calls_of (executeAgent 1 ex_env_ok 12 ex_ledger) \<noteq> []" by simp
  from r l12 a12 w1 l14 w2 w3 mr w4 w5 show ?thesis by simp
qed

text \<open>
  C6. An agent whose snapshot has \<open>isActive = false\<close> is never passed to the completion
  service: \<open>executeAgent\<close> returns at its first early return, with no call made and the
  ledger as it was, and no call of a whole loop over any page names that agent, which
  the loop leaves as it was.
\<close>

theorem inactive_not_generated:
  assumes "L a = Some ag" and "\<not> isActive ag"
  shows "(infoReadOk e \<longrightarrow> executeAgent w e a L = (SkippedInactive, [], L)) \<and>
         calls_of (executeAgent w e a L) = [] \<and>
         ledger_of (executeAgent w e a L) = L \<and>
         a \<notin> fst ` set (calls_of (executeAgents_loop w env page L)) \<and>
         ledger_of (executeAgents_loop w env page L) a = Some ag"
  using executeAgent_inactive [where L = L and a = a and ag = ag and w = w and e = e]
    loop_inactive [where L = L and a = a and ag = ag and w = w and env = env and page = page]
    assms
  by (simp add: calls_of_def ledger_of_def)

theorem inactive_not_generated_witness:
  "ex_ledger 13 = Some ((Agent_constructor 9 100 1 ''i'')\<lparr>isActive := False\<rparr>) \<and>
   \<not> isActive ((Agent_constructor 9 100 1 ''i'')\<lparr>isActive := False\<rparr>) \<and>
   infoReadOk ex_env_ok \<and>
   executeAgent 1 ex_env_ok 13 ex_ledger = (SkippedInactive, [], ex_ledger) \<and>
   13 \<notin> fst ` set (calls_of (executeAgents_loop 1 ex_env [11, 12, 13, 14] ex_ledger))"
proof -
  let ?i = "(Agent_constructor 9 100 1 ''i'')\<lparr>isActive := False\<rparr>"
  have l: "ex_ledger 13 = Some ?i" by (simp add: ex_ledger_def)
  have i: "\<not> isActive ?i" by simp
  have r: "infoReadOk ex_env_ok" by (simp add: ex_env_ok_def)
  from inactive_not_generated [where L = ex_ledger and a = 13 and ag = ?i and e = ex_env_ok
      and w = 1 and env = ex_env and page = "[11, 12, 13, 14]"] l i r
  show ?thesis by simp
qed








subsection \<open>The tick\<close>

text \<open>
  \<open>executeAgents\<close> does not reach its loop. On an empty registry it returns early. On
  any other registry \<open>Math.min\<close> gets the BigInt count and throws, and the \<open>catch\<close> block
  of line 130 ends the tick: no agent is processed and the ledger is as it was. On the
  registry of five and the ledger of the examples, where processing the agent 12 alone
  completes, the tick processes nobody.
\<close>

lemma executeAgents_stops_at_Math_min:
  assumes "agents f \<noteq> []"
  shows "executeAgents w te f L = (TickErrored, [], [], L)"
  using assms
  by (simp add: executeAgents_def loose_equal_def Math_min_def ToNumber_def getAgentCount_def
      Let_def)

lemma executeAgents_empty:
  assumes "agents f = []" and "countReadOk te"
  shows "executeAgents w te f L = (NoAgents, [], [], L)"
  using assms
  by (simp add: executeAgents_def loose_equal_def getAgentCount_def Let_def)

lemma ex_tick_processes_nobody:
  "executeAgents 1 ex_tick_env ex_five ex_ledger = (TickErrored, [], [], ex_ledger) \<and>
   outcome_of (executeAgent 1 (agentEnv ex_tick_env 12) 12 ex_ledger) = Completed"
  using executeAgents_stops_at_Math_min [of ex_five 1 ex_tick_env ex_ledger] ex_outcome_12
  by (simp add: ex_five_def ex_tick_env_def)

section \<open>The history of the monitor\<close>

lemma slice_last_snoc:
  assumes "0 < n"
  shows "slice_last n (slice_last n xs @ [d]) = slice_last n (xs @ [d])"
proof (cases "length xs \<le> n")
  case True
  then show ?thesis by (simp add: slice_last_def)
next
  case False
  then have "length xs - n + 1 = Suc (length xs) - n" using assms by simp
  with False assms show ?thesis
    by (simp add: slice_last_def)
qed

lemma saveMonitoringData_ok:
  "saveMonitoringData True True d file =
     Some (slice_last 1000 ((case file of None \<Rightarrow> [] | Some h \<Rightarrow> h) @ [d]))"
  by (cases "file") (simp_all add: saveMonitoringData_def slice_last_def Let_def)

lemma saveMonitoringData_bound:
  assumes "case file of None \<Rightarrow> True | Some h \<Rightarrow> length h \<le> 1000"
  shows "case saveMonitoringData readOk writeOk d file of
           None \<Rightarrow> True | Some h \<Rightarrow> length h \<le> 1000"
  using assms
  by (cases "file"; cases writeOk; cases readOk)
     (simp_all add: saveMonitoringData_def slice_last_def Let_def)

lemma save_all_snoc:
  "save_all (steps @ [(r, w, d)]) file = saveMonitoringData r w d (save_all steps file)"
  by (induction steps arbitrary: "file") auto

lemma save_all_bound:
  "case save_all steps None of None \<Rightarrow> True | Some h \<Rightarrow> length h \<le> 1000"
proof (induction steps rule: rev_induct)
  case Nil
  show ?case by simp
next
  case (snoc x steps)
  obtain r w d where x: "x = (r, w, d)" by (cases x)
  from saveMonitoringData_bound [OF snoc.IH] show ?case
    unfolding x save_all_snoc .
qed

lemma save_all_ok:
  assumes "\<forall>s\<in>set steps. fst s \<and> fst (snd s)" and "steps \<noteq> []"
  shows "save_all steps file =
     Some (slice_last 1000 ((case file of None \<Rightarrow> [] | Some h \<Rightarrow> h) @ map (\<lambda>s. snd (snd s)) steps))"
  using assms
proof (induction steps rule: rev_induct)
  case Nil
  then show ?case by simp
next
  case (snoc x steps)
  obtain d where x: "x = (True, True, d)"
    using snoc.prems(1) by (cases x) auto
  let ?h0 = "case file of None \<Rightarrow> [] | Some h \<Rightarrow> h"
  show ?case
  proof (cases "steps = []")
    case True
    then show ?thesis
      by (simp add: x saveMonitoringData_ok)
  next
    case False
    from snoc.prems(1) have "\<forall>s\<in>set steps. fst s \<and> fst (snd s)" by simp
    from snoc.IH [OF this False]
    have "save_all (steps @ [x]) file =
            Some (slice_last 1000 (slice_last 1000 (?h0 @ map (\<lambda>s. snd (snd s)) steps) @ [d]))"
      unfolding x save_all_snoc by (simp add: saveMonitoringData_ok)
    also have "slice_last 1000 (slice_last 1000 (?h0 @ map (\<lambda>s. snd (snd s)) steps) @ [d]) =
            slice_last 1000 ((?h0 @ map (\<lambda>s. snd (snd s)) steps) @ [d])"
      by (rule slice_last_snoc) simp
    finally show ?thesis by (simp add: x)
  qed
qed

text \<open>
  C8. The history file is a bounded queue. Starting without a file, after any sequence of
  appends, whatever fails, the file holds at most 1000 samples; an append that is
  written leaves at most 1000 samples, whatever the file held. When every read and write
  goes through, the file holds, after the appends, the last 1000 of the samples that the
  file held followed by the appended ones in their order: the oldest are dropped first.
\<close>

theorem history_bounded_fifo:
  "(case save_all steps None of None \<Rightarrow> True | Some h \<Rightarrow> length h \<le> 1000) \<and>
   (writeOk \<longrightarrow>
      (\<exists>h. saveMonitoringData readOk writeOk d file = Some h \<and> length h \<le> 1000)) \<and>
   ((\<forall>s\<in>set steps. fst s \<and> fst (snd s)) \<and> steps \<noteq> [] \<longrightarrow>
      save_all steps file =
        Some (slice_last 1000
               ((case file of None \<Rightarrow> [] | Some h \<Rightarrow> h) @ map (\<lambda>s. snd (snd s)) steps)))"
proof (intro conjI impI)
  show "case save_all steps None of None \<Rightarrow> True | Some h \<Rightarrow> length h \<le> 1000"
    by (rule save_all_bound)
next
  assume writeOk
  then show "\<exists>h. saveMonitoringData readOk writeOk d file = Some h \<and> length h \<le> 1000"
    by (simp add: saveMonitoringData_def slice_last_def Let_def)
next
  assume "(\<forall>s\<in>set steps. fst s \<and> fst (snd s)) \<and> steps \<noteq> []"
  then show "save_all steps file =
        Some (slice_last 1000
               ((case file of None \<Rightarrow> [] | Some h \<Rightarrow> h) @ map (\<lambda>s. snd (snd s)) steps))"
    by (simp add: save_all_ok)
qed

theorem history_bounded_fifo_witness:
  "list_all (\<lambda>s. fst s \<and> fst (snd s)) (map (\<lambda>i. (True, True, ex_sample i)) [0..<1001]) \<and>
   map (\<lambda>i. (True, True, ex_sample i)) [0..<1001] \<noteq> [] \<and>
   save_all (map (\<lambda>i. (True, True, ex_sample i)) [0..<1001]) None =
     Some (map ex_sample [1..<1001]) \<and>
   length (map ex_sample [1..<1001]) = 1000"
proof -
  let ?steps = "map (\<lambda>i. (True, True, ex_sample i)) [0..<1001]"
  have ok: "\<forall>s\<in>set ?steps. fst s \<and> fst (snd s)" by simp
  have ne: "?steps \<noteq> []" by simp
  have m: "map (\<lambda>s. snd (snd s)) ?steps = map ex_sample [0..<1001]"
    by (simp add: comp_def)
  have sl: "slice_last 1000 (map ex_sample [0..<1001]) = map ex_sample [1..<1001]"
    by (simp add: slice_last_def drop_map)
  note history_bounded_fifo [of ?steps True True "ex_sample 0" None, THEN conjunct2, THEN conjunct2]
  from this [THEN mp, OF conjI [OF ok ne]]
  have "save_all ?steps None =
          Some (slice_last 1000 ((case None of None \<Rightarrow> [] | Some h \<Rightarrow> h) @
                  map (\<lambda>s. snd (snd s)) ?steps))" .
  then have "save_all ?steps None = Some (map ex_sample [1..<1001])"
    unfolding m option.case append_Nil sl .
  with ok ne show ?thesis by (simp add: list_all_iff)
qed

section \<open>The scan of the monitor\<close>

lemma scanAgents_loop_append:
  "scanAgents_loop readOk L thr (xs @ ys) acc =
     scanAgents_loop readOk L thr ys (scanAgents_loop readOk L thr xs acc)"
  by (induction xs arbitrary: acc) simp_all

lemma never_executed_apply_tx:
  assumes "executionCount (apply_tx s t) = 0"
  shows "executionCount s = 0 \<and> lastExecutionTime (apply_tx s t) = lastExecutionTime s"
proof (cases "exec t s")
  case (Inl e)
  with assms show ?thesis by (simp add: apply_tx_def)
next
  case (Inr s')
  then have a: "apply_tx s t = s'" by (simp add: apply_tx_def)
  show ?thesis
  proof (cases "tx_call t")
    case (UpdateGoal g)
    with Inr have "updateGoal (tx_sender t) (tx_time t) g s = Inr s'" by (simp add: exec_def)
    from updateGoal_Inr [OF this] a assms show ?thesis by simp
  next
    case (StoreResponse r)
    with Inr have "storeResponse (tx_sender t) (tx_time t) r s = Inr s'" by (simp add: exec_def)
    from storeResponse_Inr [OF this] a assms show ?thesis by simp
  next
    case (StoreMemory k v)
    with Inr have "storeMemory (tx_sender t) (tx_time t) k v s = Inr s'" by (simp add: exec_def)
    from storeMemory_Inr_fields [OF this] a assms show ?thesis by simp
  next
    case (SetActive b)
    with Inr have "setActive (tx_sender t) (tx_time t) b s = Inr s'" by (simp add: exec_def)
    from setActive_Inr [OF this] a assms show ?thesis by simp
  next
    case (TransferOwnership x)
    with Inr have "transferOwnership (tx_sender t) (tx_time t) x s = Inr s'" by (simp add: exec_def)
    from transferOwnership_Inr [OF this] a assms show ?thesis by simp
  qed
qed

lemma never_executed_time:
  "executionCount (run (Agent_constructor d t0 own g) txs) = 0 \<Longrightarrow>
   lastExecutionTime (run (Agent_constructor d t0 own g) txs) = t0"
proof (induction txs rule: rev_induct)
  case Nil
  show ?case by (simp add: run_def Agent_constructor_def)
next
  case (snoc t txs)
  from snoc.prems have "executionCount (apply_tx (run (Agent_constructor d t0 own g) txs) t) = 0"
    by (simp add: run_snoc)
  from never_executed_apply_tx [OF this] snoc.IH show ?case
    by (simp add: run_snoc)
qed

lemma scanAgents_step_read:
  assumes "L a = Some ag" and "readOk a"
  shows "scanAgents_step readOk L thr a (act, tot, rec) =
           ((if isActive ag then act + 1 else act), tot + executionCount ag,
            (if int (lastExecutionTime ag) > thr then rec + 1 else rec))"
  using assms
  by (simp add: scanAgents_step_def utils_getAgentInfo_def getAgentInfo_def getAllMemories_def)

lemma scanAgents_step_shift:
  "scanAgents_step readOk L thr a (act + i, tot + j, rec + k) =
     (fst (scanAgents_step readOk L thr a (act, tot, rec)) + i,
      fst (snd (scanAgents_step readOk L thr a (act, tot, rec))) + j,
      snd (snd (scanAgents_step readOk L thr a (act, tot, rec))) + k)"
  by (simp add: scanAgents_step_def split: option.splits)

lemma scanAgents_loop_shift:
  "scanAgents_loop readOk L thr page (act + i, tot + j, rec + k) =
     (fst (scanAgents_loop readOk L thr page (act, tot, rec)) + i,
      fst (snd (scanAgents_loop readOk L thr page (act, tot, rec))) + j,
      snd (snd (scanAgents_loop readOk L thr page (act, tot, rec))) + k)"
proof (induction page arbitrary: act tot rec)
  case Nil
  show ?case by simp
next
  case (Cons b bs)
  obtain x y z where st: "scanAgents_step readOk L thr b (act, tot, rec) = (x, y, z)"
    by (cases "scanAgents_step readOk L thr b (act, tot, rec)")
  have "scanAgents_step readOk L thr b (act + i, tot + j, rec + k) = (x + i, y + j, z + k)"
    by (simp add: scanAgents_step_shift st)
  with Cons.IH [of x y z] st show ?case by simp
qed

lemma scanAgents_loop_counts:
  assumes new: "L a = Some ag" and rd: "readOk a" and nev: "executionCount ag = 0"
    and rc: "thr < int (lastExecutionTime ag)"
  shows "scanAgents_loop readOk L thr (pre @ a # post) acc =
     (fst (scanAgents_loop readOk L thr (pre @ post) acc) + (if isActive ag then 1 else 0),
      fst (snd (scanAgents_loop readOk L thr (pre @ post) acc)),
      snd (snd (scanAgents_loop readOk L thr (pre @ post) acc)) + 1)"
proof -
  obtain x y z where p: "scanAgents_loop readOk L thr pre acc = (x, y, z)"
    by (cases "scanAgents_loop readOk L thr pre acc")
  have "scanAgents_step readOk L thr a (x, y, z) =
           ((if isActive ag then x + 1 else x), y + executionCount ag,
            (if int (lastExecutionTime ag) > thr then z + 1 else z))"
    by (rule scanAgents_step_read; fact)
  then have st: "scanAgents_step readOk L thr a (x, y, z) =
          (x + (if isActive ag then 1 else 0), y + 0, z + 1)"
    using rc nev by simp
  have "scanAgents_loop readOk L thr (pre @ a # post) acc =
          scanAgents_loop readOk L thr post (x + (if isActive ag then 1 else 0), y + 0, z + 1)"
    by (simp only: scanAgents_loop_append scanAgents_loop.simps p st)
  also have "\<dots> =
     (fst (scanAgents_loop readOk L thr post (x, y, z)) + (if isActive ag then 1 else 0),
      fst (snd (scanAgents_loop readOk L thr post (x, y, z))) + 0,
      snd (snd (scanAgents_loop readOk L thr post (x, y, z))) + 1)"
    by (rule scanAgents_loop_shift)
  also have "scanAgents_loop readOk L thr post (x, y, z) =
     scanAgents_loop readOk L thr (pre @ post) acc"
    by (simp add: scanAgents_loop_append p)
  finally show ?thesis by simp
qed

lemma scanAgents_listed:
  assumes "agents f \<noteq> []" and "listOk e"
  shows "scanAgents e f L file =
     saveMonitoringData (fileReadOk e) (fileWriteOk e)
       \<lparr> sample_timestamp = scanTime e,
         totalAgents = length (agents f),
         activeAgents =
           fst (scanAgents_loop (agentReadOk e) L (scanTime e - 3600) (take 1000 (agents f)) (0, 0, 0)),
         totalExecutions =
           fst (snd (scanAgents_loop (agentReadOk e) L (scanTime e - 3600) (take 1000 (agents f)) (0, 0, 0))),
         recentExecutions =
           snd (snd (scanAgents_loop (agentReadOk e) L (scanTime e - 3600) (take 1000 (agents f)) (0, 0, 0))) \<rparr>
       file"
proof -
  have "getAgents f 0 1000 = Inr (take 1000 (drop 0 (agents f)))"
    by (rule getAgents_Inr) (use assms(1) in \<open>simp_all add: MAX_UINT256_def\<close>)
  then have page: "utils_getAllAgents (listOk e) f 0 1000 =
      Some \<lparr>page_agents = take 1000 (agents f), totalCount = length (agents f),
            hasMore = (length (take 1000 (agents f)) < length (agents f))\<rparr>"
    using assms(2) by (simp add: utils_getAllAgents_def getAgentCount_def Let_def)
  show ?thesis
    by (simp add: scanAgents_def page Let_def split: prod.splits)
qed


text \<open>
  C9. A new agent has \<open>executionCount = 0\<close>, is active, and has the time of its creation
  as \<open>lastExecutionTime\<close>; and whatever transactions follow, as long as its
  \<open>executionCount\<close> is 0 its \<open>lastExecutionTime\<close> is still the time of its creation. So
  when the monitor can read such a never-executed agent, active or not, and less than
  an hour of the monitor's clock has passed since its creation, the scan counts it in
  \<open>recentExecutions\<close> and adds nothing to \<open>totalExecutions\<close>: one body of the loop adds
  one to the counter of recent executions and nothing to the total, the loop over a page
  with the agent ends with one more recent execution and the same total than the loop
  over the page without it, and the sample that the scan appends to the history holds
  these counters.
\<close>

theorem new_agent_counted_recent:
  assumes reach: "ag = run (Agent_constructor deployer created own g) txs"
    and never: "executionCount ag = 0"
    and at: "L a = Some ag"
    and rd: "agentReadOk e a"
    and recent: "scanTime e - 3600 < int created"
  shows "executionCount (Agent_constructor deployer created own g) = 0 \<and>
         isActive (Agent_constructor deployer created own g) \<and>
         lastExecutionTime (Agent_constructor deployer created own g) = created \<and>
         lastExecutionTime ag = created \<and>
         scanAgents_step (agentReadOk e) L (scanTime e - 3600) a (act, tot, rec) =
           ((if isActive ag then act + 1 else act), tot, rec + 1) \<and>
         scanAgents_loop (agentReadOk e) L (scanTime e - 3600) (pre @ a # post) acc =
           (fst (scanAgents_loop (agentReadOk e) L (scanTime e - 3600) (pre @ post) acc) +
              (if isActive ag then 1 else 0),
            fst (snd (scanAgents_loop (agentReadOk e) L (scanTime e - 3600) (pre @ post) acc)),
            snd (snd (scanAgents_loop (agentReadOk e) L (scanTime e - 3600) (pre @ post) acc)) + 1) \<and>
         (take 1000 (agents f) = pre @ a # post \<and> listOk e \<longrightarrow>
            scanAgents e f L history =
              saveMonitoringData (fileReadOk e) (fileWriteOk e)
                \<lparr> sample_timestamp = scanTime e,
                  totalAgents = length (agents f),
                  activeAgents =
                    fst (scanAgents_loop (agentReadOk e) L (scanTime e - 3600) (pre @ post) (0, 0, 0)) +
                      (if isActive ag then 1 else 0),
                  totalExecutions =
                    fst (snd (scanAgents_loop (agentReadOk e) L (scanTime e - 3600) (pre @ post) (0, 0, 0))),
                  recentExecutions =
                    snd (snd (scanAgents_loop (agentReadOk e) L (scanTime e - 3600) (pre @ post) (0, 0, 0))) + 1 \<rparr>
                history)"
proof -
  have t: "lastExecutionTime ag = created"
    using never unfolding reach by (rule never_executed_time)
  with recent have rc: "scanTime e - 3600 < int (lastExecutionTime ag)" by simp
  have "scanAgents_step (agentReadOk e) L (scanTime e - 3600) a (act, tot, rec) =
           ((if isActive ag then act + 1 else act), tot + executionCount ag,
            (if int (lastExecutionTime ag) > scanTime e - 3600 then rec + 1 else rec))"
    by (rule scanAgents_step_read; fact)
  with rc never
  have step: "scanAgents_step (agentReadOk e) L (scanTime e - 3600) a (act, tot, rec) =
           ((if isActive ag then act + 1 else act), tot, rec + 1)" by simp
  have loop: "scanAgents_loop (agentReadOk e) L (scanTime e - 3600) (pre @ a # post) acc =
           (fst (scanAgents_loop (agentReadOk e) L (scanTime e - 3600) (pre @ post) acc) +
              (if isActive ag then 1 else 0),
            fst (snd (scanAgents_loop (agentReadOk e) L (scanTime e - 3600) (pre @ post) acc)),
            snd (snd (scanAgents_loop (agentReadOk e) L (scanTime e - 3600) (pre @ post) acc)) + 1)"
    for acc
    by (rule scanAgents_loop_counts; fact)
  have smp: "scanAgents e f L history =
              saveMonitoringData (fileReadOk e) (fileWriteOk e)
                \<lparr> sample_timestamp = scanTime e,
                  totalAgents = length (agents f),
                  activeAgents =
                    fst (scanAgents_loop (agentReadOk e) L (scanTime e - 3600) (pre @ post) (0, 0, 0)) +
                      (if isActive ag then 1 else 0),
                  totalExecutions =
                    fst (snd (scanAgents_loop (agentReadOk e) L (scanTime e - 3600) (pre @ post) (0, 0, 0))),
                  recentExecutions =
                    snd (snd (scanAgents_loop (agentReadOk e) L (scanTime e - 3600) (pre @ post) (0, 0, 0))) + 1 \<rparr>
                history"
    if h: "take 1000 (agents f) = pre @ a # post \<and> listOk e"
  proof -
    from h have pg: "take 1000 (agents f) = pre @ a # post" and ok: "listOk e" by simp_all
    from pg have ne: "agents f \<noteq> []" by auto
    show ?thesis
      unfolding scanAgents_listed [OF ne ok] pg loop [of "(0, 0, 0)"] by simp
  qed
  have c: "executionCount (Agent_constructor deployer created own g) = 0"
    "isActive (Agent_constructor deployer created own g)"
    "lastExecutionTime (Agent_constructor deployer created own g) = created"
    by (simp_all add: Agent_constructor_def)
  from c t step loop [of acc] smp show ?thesis by blast
qed

theorem new_agent_counted_recent_witness:
  "ex_ledger 13 = Some (run (Agent_constructor 9 100 1 ''i'')
     [\<lparr>tx_sender = 1, tx_time = 150, tx_call = SetActive False\<rparr>]) \<and>
   executionCount (run (Agent_constructor 9 100 1 ''i'')
     [\<lparr>tx_sender = 1, tx_time = 150, tx_call = SetActive False\<rparr>]) = 0 \<and>
   \<not> isActive (run (Agent_constructor 9 100 1 ''i'')
     [\<lparr>tx_sender = 1, tx_time = 150, tx_call = SetActive False\<rparr>]) \<and>
   agentReadOk ex_scan_env 13 \<and> scanTime ex_scan_env - 3600 < int 100 \<and>
   take 1000 (agents ex_five) = [11, 12] @ 13 # [14, 15] \<and> listOk ex_scan_env \<and>
   scanAgents_step (agentReadOk ex_scan_env) ex_ledger (scanTime ex_scan_env - 3600) 13 (0, 0, 0) =
     (0, 0, 1) \<and>
   scanAgents ex_scan_env ex_five ex_ledger (Some [ex_sample 0]) =
     Some [ex_sample 0,
           \<lparr> sample_timestamp = 2000, totalAgents = 5, activeAgents = 4,
             totalExecutions = 3, recentExecutions = 5 \<rparr>]"
proof -
  let ?ag = "run (Agent_constructor 9 100 1 ''i'')
     [\<lparr>tx_sender = 1, tx_time = 150, tx_call = SetActive False\<rparr>]"
  have n: "executionCount ?ag = 0" and i: "\<not> isActive ?ag"
    by (simp_all add: run_def apply_tx_def exec_def setActive_def Agent_constructor_def)
  have rd: "agentReadOk ex_scan_env 13" and rc: "scanTime ex_scan_env - 3600 < int 100"
    and ok: "listOk ex_scan_env" and tm: "scanTime ex_scan_env = 2000"
    and io: "fileReadOk ex_scan_env" "fileWriteOk ex_scan_env"
    by (simp_all add: ex_scan_env_def)
  have pg: "take 1000 (agents ex_five) = [11, 12] @ 13 # [14, 15]"
    and len: "length (agents ex_five) = 5"
    by (simp_all add: ex_five_def)
  note inst = new_agent_counted_recent [where ag = ?ag and deployer = 9 and created = 100 and own = 1
      and g = "''i''" and L = ex_ledger and a = 13 and e = ex_scan_env
      and pre = "[11, 12]" and post = "[14, 15]" and f = ex_five
      and history = "Some [ex_sample 0]" and act = 0 and tot = 0 and rec = 0,
      OF refl n ex_agent_13 rd rc]
  from inst i have st: "scanAgents_step (agentReadOk ex_scan_env) ex_ledger
      (scanTime ex_scan_env - 3600) 13 (0, 0, 0) = (0, 0, 1)" by simp
  from inst pg ok
  have "scanAgents ex_scan_env ex_five ex_ledger (Some [ex_sample 0]) =
     saveMonitoringData (fileReadOk ex_scan_env) (fileWriteOk ex_scan_env)
       \<lparr> sample_timestamp = scanTime ex_scan_env,
         totalAgents = length (agents ex_five),
         activeAgents =
           fst (scanAgents_loop (agentReadOk ex_scan_env) ex_ledger (scanTime ex_scan_env - 3600)
                  ([11, 12] @ [14, 15]) (0, 0, 0)) + (if isActive ?ag then 1 else 0),
         totalExecutions =
           fst (snd (scanAgents_loop (agentReadOk ex_scan_env) ex_ledger (scanTime ex_scan_env - 3600)
                  ([11, 12] @ [14, 15]) (0, 0, 0))),
         recentExecutions =
           snd (snd (scanAgents_loop (agentReadOk ex_scan_env) ex_ledger (scanTime ex_scan_env - 3600)
                  ([11, 12] @ [14, 15]) (0, 0, 0))) + 1 \<rparr>
       (Some [ex_sample 0])"
    by blast
  then have smp: "scanAgents ex_scan_env ex_five ex_ledger (Some [ex_sample 0]) =
     Some [ex_sample 0,
           \<lparr> sample_timestamp = 2000, totalAgents = 5, activeAgents = 4,
             totalExecutions = 3, recentExecutions = 5 \<rparr>]"
    unfolding ex_scan_others
    by (simp add: io tm len saveMonitoringData_def Let_def
        run_def apply_tx_def exec_def setActive_def Agent_constructor_def)
  from ex_agent_13 n i rd rc pg ok st smp show ?thesis by blast
qed

end
